theory Spec2Isabelle
  imports Complex_Main
begin

section \<open>Gamepad hooks: data model\<close>

text \<open>
  The development embeds \<^verbatim>\<open>src/index.ts\<close>: the device registry
  (\<^verbatim>\<open>useGamepadManager\<close>) and the per-frame input normaliser
  (\<^verbatim>\<open>useGamepadJoystick\<close>).

  JavaScript numbers are modelled as \<^typ>\<open>real\<close>: the code only compares, negates,
  takes absolute values and subtracts, and every finite double is a real number. NaN and
  the sign of zero are outside the model; an array read past the end (\<^verbatim>\<open>undefined\<close>)
  is modelled by \<^const>\<open>None\<close>.
  A callback is modelled by the event it would deliver; an optional callback of the props
  is a flag saying whether the caller supplied it.
\<close>

datatype EmitMode = JoystickEmitAlways | JoystickEmitOnChange

datatype Side = Left | Right

text \<open>One call of a caller-supplied callback.\<close>

datatype event =
    OnLeftJoystickMove real real
  | OnRightJoystickMove real real
  | OnButtonBinary string bool
  | OnButtonAnalog string real

text \<open>The raw device record of the browser, as far as the code reads it.\<close>

record Gamepad =
  gp_connected :: bool
  gp_id :: string
  gp_index :: nat
  gp_mapping :: string
  gp_axes :: "real list"
  gp_buttons :: "real list"
  gp_batteryLevel :: "real option"

text \<open>\<^verbatim>\<open>navigator.getGamepads()\<close>: an array with possibly empty slots.\<close>

type_synonym snapshot = "Gamepad option list"

text \<open>\<^verbatim>\<open>GamepadJoystickProps\<close> with the defaults of the destructuring applied.\<close>

record props =
  device_id :: int
  onLeftJoystickMove :: bool
  onRightJoystickMove :: bool
  onButtonBinary :: bool
  onButtonAnalog :: bool
  joystickRateHz :: real
  joystickEmitMode :: EmitMode
  deadzone :: real
  triggerThreshold :: real
  triggerEpsilon :: real

text \<open>A caller that supplies all four callbacks and leaves the other props at their defaults.\<close>

definition default_props :: "int \<Rightarrow> props" where
  "default_props i =
     \<lparr>device_id = i, onLeftJoystickMove = True, onRightJoystickMove = True,
      onButtonBinary = True, onButtonAnalog = True,
      joystickRateHz = 30, joystickEmitMode = JoystickEmitOnChange,
      deadzone = 1 / 10, triggerThreshold = 1 / 10, triggerEpsilon = 1 / 100\<rparr>"

text \<open>The four \<^verbatim>\<open>useRef\<close> cells of the hook.\<close>

record refs =
  lastEmitTime :: real
  lastNonNeutral :: "Side \<Rightarrow> bool"
  prevAxes :: "Side \<Rightarrow> real \<times> real"
  prevButtons :: "string \<rightharpoonup> real"

definition initial_refs :: refs where
  "initial_refs =
     \<lparr>lastEmitTime = 0, lastNonNeutral = (\<lambda>_. False),
      prevAxes = (\<lambda>_. (0, 0)), prevButtons = Map.empty\<rparr>"

section \<open>Button names\<close>

definition STANDARD_BUTTONS :: "string list" where
  "STANDARD_BUTTONS =
     [''Face1'', ''Face2'', ''Face3'', ''Face4'',
      ''LeftBumper'', ''RightBumper'', ''LeftTrigger'', ''RightTrigger'',
      ''Share'', ''Options'', ''LeftStick'', ''RightStick'',
      ''DPadUp'', ''DPadDown'', ''DPadLeft'', ''DPadRight'',
      ''Home'']"

text \<open>The decimal numeral a template literal prints for an array index.\<close>

definition digit_char :: "nat \<Rightarrow> char" where
  "digit_char d = ''0123456789'' ! d"

fun decimal :: "nat \<Rightarrow> string" where
  "decimal n = (if n < 10 then [digit_char n] else decimal (n div 10) @ [digit_char (n mod 10)])"

declare decimal.simps [simp del]

text \<open>\<^verbatim>\<open>STANDARD_BUTTONS[i] ?? `Button${i}`\<close>\<close>

definition button_name :: "nat \<Rightarrow> string" where
  "button_name i =
     (if i < length STANDARD_BUTTONS then STANDARD_BUTTONS ! i else ''Button'' @ decimal i)"

section \<open>The per-frame loop body\<close>

text \<open>\<^verbatim>\<open>gps[id]\<close>: out of range, negative or an empty slot all give a falsy value.\<close>

definition lookup_gamepad :: "snapshot \<Rightarrow> int \<Rightarrow> Gamepad option" where
  "lookup_gamepad gps i =
     (if 0 \<le> i \<and> nat i < length gps then gps ! nat i else None)"

text \<open>\<^verbatim>\<open>gp.axes[k]\<close>, \<^verbatim>\<open>undefined\<close> past the end.\<close>

definition axis :: "real list \<Rightarrow> nat \<Rightarrow> real option" where
  "axis xs k = (if k < length xs then Some (xs ! k) else None)"

text \<open>
  \<^verbatim>\<open>Math.abs(v) > deadzone ? v : 0\<close> and \<^verbatim>\<open>Math.abs(v) > deadzone ? -v : 0\<close>.
  For a missing axis \<^verbatim>\<open>Math.abs(undefined)\<close> is NaN, the comparison is false and
  the result is 0.
\<close>

definition filter_x :: "real \<Rightarrow> real option \<Rightarrow> real" where
  "filter_x dz r = (case r of None \<Rightarrow> 0 | Some v \<Rightarrow> if \<bar>v\<bar> > dz then v else 0)"

definition filter_y :: "real \<Rightarrow> real option \<Rightarrow> real" where
  "filter_y dz r = (case r of None \<Rightarrow> 0 | Some v \<Rightarrow> if \<bar>v\<bar> > dz then - v else 0)"

definition axesRaw :: "real \<Rightarrow> Gamepad \<Rightarrow> Side \<Rightarrow> real \<times> real" where
  "axesRaw dz gp side =
     (case side of
        Left \<Rightarrow> (filter_x dz (axis (gp_axes gp) 0), filter_y dz (axis (gp_axes gp) 1))
      | Right \<Rightarrow> (filter_x dz (axis (gp_axes gp) 2), filter_y dz (axis (gp_axes gp) 3)))"

text \<open>
  \<^verbatim>\<open>(now - lastEmitTimeRef.current) >= intervalMs\<close> with
  \<^verbatim>\<open>intervalMs = 1000 / joystickRateHz\<close>. Division by zero gives Infinity in
  JavaScript, which no finite elapsed time reaches.
\<close>

definition shouldEmit :: "props \<Rightarrow> real \<Rightarrow> refs \<Rightarrow> bool" where
  "shouldEmit p now s =
     (if joystickRateHz p = 0 then False
      else now - lastEmitTime s \<ge> 1000 / joystickRateHz p)"

definition has_callback :: "props \<Rightarrow> Side \<Rightarrow> bool" where
  "has_callback p side = (case side of Left \<Rightarrow> onLeftJoystickMove p | Right \<Rightarrow> onRightJoystickMove p)"

definition callback :: "Side \<Rightarrow> real \<times> real \<Rightarrow> event" where
  "callback side v =
     (case side of Left \<Rightarrow> OnLeftJoystickMove (fst v) (snd v)
                 | Right \<Rightarrow> OnRightJoystickMove (fst v) (snd v))"

text \<open>The body of the \<^verbatim>\<open>forEach\<close> over the two sides.\<close>

definition side_events :: "props \<Rightarrow> bool \<Rightarrow> Side \<Rightarrow> real \<times> real \<Rightarrow> refs \<Rightarrow> event list" where
  "side_events p should side next s =
     (let isNeutral = (fst next = 0 \<and> snd next = 0);
          changed = (fst next \<noteq> fst (prevAxes s side) \<or> snd next \<noteq> snd (prevAxes s side))
      in if joystickEmitMode p = JoystickEmitAlways then
           (if has_callback p side \<and> should then [callback side next] else [])
         else
           (let wasNonNeutral = lastNonNeutral s side
            in if isNeutral then
                 (if wasNonNeutral \<and> has_callback p side then [callback side (0, 0)] else [])
               else
                 (if has_callback p side \<and> (changed \<or> should) then [callback side next] else [])))"

definition process_side :: "props \<Rightarrow> bool \<Rightarrow> Gamepad \<Rightarrow> Side \<Rightarrow> refs \<Rightarrow> event list \<times> refs" where
  "process_side p should gp side s =
     (let next = axesRaw (deadzone p) gp side;
          isNeutral = (fst next = 0 \<and> snd next = 0)
      in (side_events p should side next s,
          s\<lparr>prevAxes := (prevAxes s)(side := next),
            lastNonNeutral := (lastNonNeutral s)(side := \<not> isNeutral)\<rparr>))"

text \<open>\<^verbatim>\<open>prevButtonsRef.current[name] ?? 0\<close>\<close>

definition prevValue_of :: "(string \<rightharpoonup> real) \<Rightarrow> string \<Rightarrow> real" where
  "prevValue_of pb name = (case pb name of None \<Rightarrow> 0 | Some w \<Rightarrow> w)"

text \<open>The body of \<^verbatim>\<open>gp.buttons.forEach((btn, i) => ...)\<close> for one button.\<close>

definition button_step ::
  "props \<Rightarrow> nat \<Rightarrow> real \<Rightarrow> (string \<rightharpoonup> real) \<Rightarrow> event list \<times> (string \<rightharpoonup> real)" where
  "button_step p i v pb =
     (let name = button_name i;
          prevValue = prevValue_of pb name;
          isTrigger = (i = 6 \<or> i = 7);
          pressed = (v > triggerThreshold p);
          prevPressed = (prevValue > triggerThreshold p)
      in ((if \<not> prevPressed \<and> pressed \<and> onButtonBinary p then [OnButtonBinary name True] else [])
          @ (if prevPressed \<and> \<not> pressed \<and> onButtonBinary p then [OnButtonBinary name False] else [])
          @ (if isTrigger \<and> \<bar>v - prevValue\<bar> > triggerEpsilon p \<and> onButtonAnalog p
             then [OnButtonAnalog name v] else []),
          pb(name \<mapsto> v)))"

fun process_buttons ::
  "props \<Rightarrow> nat \<Rightarrow> real list \<Rightarrow> (string \<rightharpoonup> real) \<Rightarrow> event list \<times> (string \<rightharpoonup> real)" where
  "process_buttons p i [] pb = ([], pb)"
| "process_buttons p i (v # vs) pb =
     (let (ev, pb') = button_step p i v pb;
          (evs, pb'') = process_buttons p (Suc i) vs pb'
      in (ev @ evs, pb''))"

text \<open>
  The body of \<^verbatim>\<open>poll\<close> without its \<^verbatim>\<open>requestAnimationFrame\<close> calls: the
  callbacks made in this frame and the refs afterwards. An absent device changes nothing.
\<close>

definition poll_frame :: "props \<Rightarrow> snapshot \<Rightarrow> real \<Rightarrow> refs \<Rightarrow> event list \<times> refs" where
  "poll_frame p gps now s =
     (case lookup_gamepad gps (device_id p) of
        None \<Rightarrow> ([], s)
      | Some gp \<Rightarrow>
          (let should = shouldEmit p now s;
               (evL, s1) = process_side p should gp Left s;
               (evR, s2) = process_side p should gp Right s1;
               (evB, pb) = process_buttons p 0 (gp_buttons gp) (prevButtons s2);
               s3 = s2\<lparr>prevButtons := pb\<rparr>;
               s4 = (if should then s3\<lparr>lastEmitTime := now\<rparr> else s3)
           in (evL @ evR @ evB, s4)))"

text \<open>
  The effect body after the definition of \<^verbatim>\<open>poll\<close>:
  \<^verbatim>\<open>lastEmitTimeRef.current = performance.now()\<close>. It touches no other ref.
\<close>

definition effect_start :: "real \<Rightarrow> refs \<Rightarrow> refs" where
  "effect_start now s = s\<lparr>lastEmitTime := now\<rparr>"

text \<open>A sequence of animation frames under fixed props: the snapshot and the clock of each.\<close>

fun run :: "props \<Rightarrow> (snapshot \<times> real) list \<Rightarrow> refs \<Rightarrow> event list \<times> refs" where
  "run p [] s = ([], s)"
| "run p (f # fs) s =
     (let (ev, s') = poll_frame p (fst f) (snd f) s;
          (evs, s'') = run p fs s'
      in (ev @ evs, s''))"

text \<open>
  The values the refs can hold: a fresh instance, an effect run, or a processed frame of a
  loop started with any props.
\<close>

inductive reachable :: "refs \<Rightarrow> bool" where
  fresh: "reachable initial_refs"
| started: "reachable s \<Longrightarrow> reachable (effect_start now s)"
| frame: "reachable s \<Longrightarrow> reachable (snd (poll_frame p gps now s))"

subsection \<open>What a caller observes\<close>

fun binary_events :: "string \<Rightarrow> event list \<Rightarrow> bool list" where
  "binary_events n [] = []"
| "binary_events n (OnButtonBinary m b # es) =
     (if m = n then b # binary_events n es else binary_events n es)"
| "binary_events n (_ # es) = binary_events n es"

fun analog_events :: "string \<Rightarrow> event list \<Rightarrow> real list" where
  "analog_events n [] = []"
| "analog_events n (OnButtonAnalog m v # es) =
     (if m = n then v # analog_events n es else analog_events n es)"
| "analog_events n (_ # es) = analog_events n es"

fun move_events :: "Side \<Rightarrow> event list \<Rightarrow> (real \<times> real) list" where
  "move_events side [] = []"
| "move_events side (OnLeftJoystickMove dx dy # es) =
     (if side = Left then (dx, dy) # move_events side es else move_events side es)"
| "move_events side (OnRightJoystickMove dx dy # es) =
     (if side = Right then (dx, dy) # move_events side es else move_events side es)"
| "move_events side (_ # es) = move_events side es"

section \<open>The hook's life cycle\<close>

text \<open>
  The refs live as long as the component; the animation-frame queue of the browser holds
  the \<^verbatim>\<open>poll\<close> closures that were requested. A closure is determined by the props
  of the effect run that created it, and reads and writes the shared refs.
\<close>

record joystick_hook =
  hook_refs :: refs
  raf_queue :: "props list"

text \<open>
  One run of the effect callback of \<^verbatim>\<open>useGamepadJoystick\<close>: it defines
  \<^verbatim>\<open>poll\<close>, resets the timestamp and requests the first frame.
\<close>

definition effect :: "props \<Rightarrow> real \<Rightarrow> joystick_hook \<Rightarrow> joystick_hook" where
  "effect p now h =
     \<lparr>hook_refs = effect_start now (hook_refs h), raf_queue = raf_queue h @ [p]\<rparr>"

text \<open>
  The value the effect callback returns to React as its cleanup: the callback has no
  \<^verbatim>\<open>return\<close> statement, so there is none.
\<close>

definition effect_cleanup :: "(joystick_hook \<Rightarrow> joystick_hook) option" where
  "effect_cleanup = None"

text \<open>React calls the cleanup of the previous effect run, when there is one.\<close>

definition run_cleanup :: "joystick_hook \<Rightarrow> joystick_hook" where
  "run_cleanup h = (case effect_cleanup of None \<Rightarrow> h | Some c \<Rightarrow> c h)"

definition mount :: "props \<Rightarrow> real \<Rightarrow> joystick_hook" where
  "mount p now = effect p now \<lparr>hook_refs = initial_refs, raf_queue = []\<rparr>"

text \<open>A dependency of the effect changed: cleanup of the old run, then the effect again.\<close>

definition reconfigure :: "props \<Rightarrow> real \<Rightarrow> joystick_hook \<Rightarrow> joystick_hook" where
  "reconfigure p now h = effect p now (run_cleanup h)"

definition unmount :: "joystick_hook \<Rightarrow> joystick_hook" where
  "unmount h = run_cleanup h"

text \<open>
  \<^verbatim>\<open>poll\<close> as the browser calls it: the frame body, and in either branch
  \<^verbatim>\<open>requestAnimationFrame(poll)\<close>.
\<close>

definition poll :: "props \<Rightarrow> snapshot \<Rightarrow> real \<Rightarrow> joystick_hook \<Rightarrow> event list \<times> joystick_hook" where
  "poll p gps now h =
     (let (ev, s') = poll_frame p gps now (hook_refs h)
      in (ev, \<lparr>hook_refs = s', raf_queue = raf_queue h @ [p]\<rparr>))"

fun run_callbacks ::
  "props list \<Rightarrow> snapshot \<Rightarrow> real \<Rightarrow> joystick_hook \<Rightarrow> event list \<times> joystick_hook" where
  "run_callbacks [] gps now h = ([], h)"
| "run_callbacks (p # ps) gps now h =
     (let (ev, h') = poll p gps now h;
          (evs, h'') = run_callbacks ps gps now h'
      in (ev @ evs, h''))"

text \<open>
  One animation frame: the browser runs the callbacks requested before it, in the order of
  the requests. The callbacks of one frame are given the same clock reading.
\<close>

definition animation_frame :: "snapshot \<Rightarrow> real \<Rightarrow> joystick_hook \<Rightarrow> event list \<times> joystick_hook" where
  "animation_frame gps now h = run_callbacks (raf_queue h) gps now (h\<lparr>raf_queue := []\<rparr>)"

section \<open>The device registry\<close>

record GamepadInfo =
  connected :: bool
  ident :: "string option"
  index :: "int option"
  mapping :: "string option"
  axes :: "nat option"
  buttons :: "nat option"
  battery :: "real option"
  busy :: "bool option"

text \<open>\<^verbatim>\<open>gamepads.find(g => g.index === gp.index)?.busy ?? false\<close>\<close>

definition carried_busy :: "GamepadInfo list \<Rightarrow> nat \<Rightarrow> bool" where
  "carried_busy gamepads i =
     (case find (\<lambda>g. index g = Some (int i)) gamepads of
        None \<Rightarrow> False
      | Some g \<Rightarrow> (case busy g of None \<Rightarrow> False | Some b \<Rightarrow> b))"

definition gamepad_info :: "GamepadInfo list \<Rightarrow> Gamepad \<Rightarrow> GamepadInfo" where
  "gamepad_info gamepads gp =
     \<lparr>connected = gp_connected gp, ident = Some (gp_id gp), index = Some (int (gp_index gp)),
      mapping = Some (gp_mapping gp), axes = Some (length (gp_axes gp)),
      buttons = Some (length (gp_buttons gp)), battery = gp_batteryLevel gp,
      busy = Some (carried_busy gamepads (gp_index gp))\<rparr>"

text \<open>
  \<^verbatim>\<open>updateGamepads\<close>: the list handed to \<^verbatim>\<open>setGamepads\<close>. The first argument
  is the \<^verbatim>\<open>gamepads\<close> variable of the render whose closure is running.
\<close>

fun updateGamepads :: "GamepadInfo list \<Rightarrow> snapshot \<Rightarrow> GamepadInfo list" where
  "updateGamepads gamepads [] = []"
| "updateGamepads gamepads (None # gps) = updateGamepads gamepads gps"
| "updateGamepads gamepads (Some gp # gps) = gamepad_info gamepads gp # updateGamepads gamepads gps"

text \<open>\<^verbatim>\<open>g.connected && !g.busy\<close>; an absent \<^verbatim>\<open>busy\<close> is falsy.\<close>

definition available :: "GamepadInfo \<Rightarrow> bool" where
  "available g = (connected g \<and> busy g \<noteq> Some True)"

definition nextAvailable :: "GamepadInfo list \<Rightarrow> int option" where
  "nextAvailable gamepads =
     (case find available gamepads of None \<Rightarrow> None | Some gp \<Rightarrow> index gp)"

definition markBusy :: "int \<Rightarrow> bool \<Rightarrow> GamepadInfo list \<Rightarrow> GamepadInfo list" where
  "markBusy i b gps = map (\<lambda>gp. if index gp = Some i then gp\<lparr>busy := Some b\<rparr> else gp) gps"

text \<open>
  The hook instance: the state of \<^verbatim>\<open>useState\<close>, and the \<^verbatim>\<open>gamepads\<close> variable
  seen by the \<^verbatim>\<open>updateGamepads\<close> closure that the mount effect handed to the two
  event listeners and to \<^verbatim>\<open>setInterval\<close>. The effect has an empty dependency list,
  so it runs once, in the first render, where \<^verbatim>\<open>gamepads\<close> is the initial state
  \<^verbatim>\<open>[]\<close>; later renders create new closures that nothing calls.
\<close>

record manager =
  gamepads :: "GamepadInfo list"
  listener_gamepads :: "GamepadInfo list"

definition manager_mount :: "snapshot \<Rightarrow> manager" where
  "manager_mount gps =
     (let first_render = [] in
      \<lparr>gamepads = updateGamepads first_render gps, listener_gamepads = first_render\<rparr>)"

text \<open>A connect event, a disconnect event or a tick of the interval.\<close>

definition refresh :: "snapshot \<Rightarrow> manager \<Rightarrow> manager" where
  "refresh gps m = m\<lparr>gamepads := updateGamepads (listener_gamepads m) gps\<rparr>"

definition manager_markBusy :: "int \<Rightarrow> bool \<Rightarrow> manager \<Rightarrow> manager" where
  "manager_markBusy i b m = m\<lparr>gamepads := markBusy i b (gamepads m)\<rparr>"

text \<open>
  What one render of \<^verbatim>\<open>useGamepadManager\<close> returns to its caller: the
  \<^verbatim>\<open>gamepads\<close> constant of that render, and \<^verbatim>\<open>nextAvailable\<close>, a closure
  that reads this constant. \<^verbatim>\<open>markBusy\<close> hands \<^verbatim>\<open>setGamepads\<close> an updater,
  which React applies to the state; the caller sees the new list in the next render.
\<close>

record manager_hook =
  hook_gamepads :: "GamepadInfo list"

definition render :: "manager \<Rightarrow> manager_hook" where
  "render m = \<lparr>hook_gamepads = gamepads m\<rparr>"

definition hook_nextAvailable :: "manager_hook \<Rightarrow> int option" where
  "hook_nextAvailable h = nextAvailable (hook_gamepads h)"

definition hook_markBusy :: "manager_hook \<Rightarrow> int \<Rightarrow> bool \<Rightarrow> manager \<Rightarrow> manager" where
  "hook_markBusy h i b m = manager_markBusy i b m"

text \<open>
  A caller that, in one render, runs \<^verbatim>\<open>markBusy(i, true); nextAvailable()\<close>: the value
  of the second call, and the state afterwards.
\<close>

definition markBusy_then_nextAvailable :: "int \<Rightarrow> manager \<Rightarrow> int option \<times> manager" where
  "markBusy_then_nextAvailable i m =
     (let h = render m;
          m' = hook_markBusy h i True m
      in (hook_nextAvailable h, m'))"

text \<open>
  The Gamepad API numbers a device by its position in the snapshot; the lists the registry
  publishes from such snapshots, and what \<^verbatim>\<open>markBusy\<close> makes of them.
\<close>

definition api_snapshot :: "snapshot \<Rightarrow> bool" where
  "api_snapshot gps = (\<forall>k < length gps. \<forall>gp. gps ! k = Some gp \<longrightarrow> gp_index gp = k)"

inductive published :: "GamepadInfo list \<Rightarrow> bool" where
  refreshed: "api_snapshot gps \<Longrightarrow> published (updateGamepads prev gps)"
| marked: "published gs \<Longrightarrow> published (markBusy i b gs)"

text \<open>
  In every reachable value of the refs the non-neutral flag of a side says whether the
  remembered pair of that side is away from the origin.
\<close>

definition consistent :: "refs \<Rightarrow> bool" where
  "consistent s = (\<forall>side. lastNonNeutral s side = (prevAxes s side \<noteq> (0, 0)))"

text \<open>A connected device at slot 0 with the given axes and button values, for examples.\<close>

definition pad :: "real list \<Rightarrow> real list \<Rightarrow> Gamepad" where
  "pad as bs =
     \<lparr>gp_connected = True, gp_id = ''pad'', gp_index = 0, gp_mapping = ''standard'',
      gp_axes = as, gp_buttons = bs, gp_batteryLevel = None\<rparr>"

text \<open>
  Edge lists: \<open>edge_trace b0 bs b1\<close> says that \<open>bs\<close> is what an edge detector reports
  while a bit goes from \<open>b0\<close> to \<open>b1\<close>: every entry differs from the one before.
\<close>

definition edge_trace :: "bool \<Rightarrow> bool list \<Rightarrow> bool \<Rightarrow> bool" where
  "edge_trace b0 bs b1 =
     (distinct_adj bs \<and> (if bs = [] then b0 = b1 else hd bs = (\<not> b0) \<and> last bs = b1))"

definition pressed_bit :: "props \<Rightarrow> (string \<rightharpoonup> real) \<Rightarrow> string \<Rightarrow> bool" where
  "pressed_bit p pb n = (prevValue_of pb n > triggerThreshold p)"

text \<open>
  The trigger scenario of the specification: the left trigger (index 6) reads
  0.0, 0.05, 0.15, 0.3, 0.0 in five successive frames.
\<close>

definition trigger_frame :: "real \<Rightarrow> real \<Rightarrow> snapshot \<times> real" where
  "trigger_frame v t = ([Some (pad [] [0, 0, 0, 0, 0, 0, v])], t)"

definition trigger_scenario :: "(snapshot \<times> real) list" where
  "trigger_scenario =
     [trigger_frame 0 16, trigger_frame (5 / 100) 32, trigger_frame (15 / 100) 48,
      trigger_frame (3 / 10) 64, trigger_frame 0 80]"

text \<open>
  The axis scenario of the specification: the left X axis reads 0.0, 0.5, 0.05, 0.0 in four
  successive frames, everything else at rest.
\<close>

definition axis_frame :: "real \<Rightarrow> real \<Rightarrow> snapshot \<times> real" where
  "axis_frame x t = ([Some (pad [x, 0, 0, 0] [])], t)"

definition axis_scenario :: "(snapshot \<times> real) list" where
  "axis_scenario =
     [axis_frame 0 16, axis_frame (1 / 2) 32, axis_frame (5 / 100) 48, axis_frame 0 64]"

text \<open>
  A reconfiguration while the stick is deflected and the first button is held: mount with
  the default props, one frame, then the rate changes to 60 Hz.
\<close>

definition held :: snapshot where
  "held = [Some (pad [1 / 2, 0, 0, 0] [1])]"

definition faster :: props where
  "faster = (default_props 0)\<lparr>joystickRateHz := 60\<rparr>"

definition reconfigured :: joystick_hook where
  "reconfigured = reconfigure faster 20 (snd (animation_frame held 16 (mount (default_props 0) 0)))"

text \<open>
  The slots of a list are ordered when its descriptors carry strictly increasing indices.
\<close>

definition ordered_slots :: "GamepadInfo list \<Rightarrow> bool" where
  "ordered_slots gs = (\<exists>ks. map index gs = map (\<lambda>k. Some (int k)) ks \<and> sorted_wrt (<) ks)"

text \<open>The registry scenario of the specification: two connected devices, at slots 0 and 1.\<close>

definition two_pads :: snapshot where
  "two_pads = [Some (pad [] []), Some ((pad [] [])\<lparr>gp_index := 1\<rparr>)]"

section \<open>Button names are pairwise different\<close>

lemma digit_char_inj: "a < 10 \<Longrightarrow> b < 10 \<Longrightarrow> digit_char a = digit_char b \<Longrightarrow> a = b"
proof -
  assume a: "a < 10" and b: "b < 10" and e: "digit_char a = digit_char b"
  have d: "distinct ''0123456789''" by simp
  have "length ''0123456789'' = 10" by simp
  with a b e d show ?thesis
    unfolding digit_char_def by (metis nth_eq_iff_index_eq)
qed

lemma decimal_nonempty: "decimal n \<noteq> []"
  by (subst decimal.simps) simp

lemma decimal_inj: "decimal n = decimal m \<Longrightarrow> n = m"
proof (induction n arbitrary: m rule: decimal.induct)
  case (1 n)
  show ?case
  proof (cases "n < 10")
    case True
    then have n: "decimal n = [digit_char n]" by (subst decimal.simps) simp
    show ?thesis
    proof (cases "m < 10")
      case True
      then have "decimal m = [digit_char m]" by (subst decimal.simps) simp
      with n "1.prems" \<open>n < 10\<close> True show ?thesis by (simp add: digit_char_inj)
    next
      case False
      then have "decimal m = decimal (m div 10) @ [digit_char (m mod 10)]"
        by (subst decimal.simps) simp
      with n "1.prems" decimal_nonempty [of "m div 10"] show ?thesis by simp
    qed
  next
    case False
    then have n: "decimal n = decimal (n div 10) @ [digit_char (n mod 10)]"
      by (subst decimal.simps) simp
    show ?thesis
    proof (cases "m < 10")
      case True
      then have "decimal m = [digit_char m]" by (subst decimal.simps) simp
      with n "1.prems" decimal_nonempty [of "n div 10"] show ?thesis by simp
    next
      case m: False
      then have "decimal m = decimal (m div 10) @ [digit_char (m mod 10)]"
        by (subst decimal.simps) simp
      with n "1.prems" have e1: "decimal (n div 10) = decimal (m div 10)"
        and e2: "digit_char (n mod 10) = digit_char (m mod 10)" by simp_all
      from "1.IH" [OF False e1] have "n div 10 = m div 10" .
      moreover from e2 have "n mod 10 = m mod 10" by (simp add: digit_char_inj)
      ultimately show ?thesis by (metis div_mult_mod_eq)
    qed
  qed
qed

lemma distinct_STANDARD_BUTTONS: "distinct STANDARD_BUTTONS"
  by (simp add: STANDARD_BUTTONS_def)

lemma length_STANDARD_BUTTONS: "length STANDARD_BUTTONS = 17"
  by (simp add: STANDARD_BUTTONS_def)

lemma standard_not_Button: "n \<in> set STANDARD_BUTTONS \<Longrightarrow> n \<noteq> ''Button'' @ d"
  by (auto simp add: STANDARD_BUTTONS_def)

lemma button_name_inj: "button_name i = button_name j \<Longrightarrow> i = j"
proof -
  assume e: "button_name i = button_name j"
  consider "i < 17" "j < 17" | "i < 17" "\<not> j < 17" | "\<not> i < 17" "j < 17" | "\<not> i < 17" "\<not> j < 17"
    by blast
  then show ?thesis
  proof cases
    case 1
    with e distinct_STANDARD_BUTTONS show ?thesis
      by (simp add: button_name_def length_STANDARD_BUTTONS nth_eq_iff_index_eq)
  next
    case 2
    then have "STANDARD_BUTTONS ! i \<in> set STANDARD_BUTTONS"
      by (simp add: length_STANDARD_BUTTONS)
    from standard_not_Button [OF this, of "decimal j"] e 2 show ?thesis
      by (simp add: button_name_def length_STANDARD_BUTTONS)
  next
    case 3
    then have "STANDARD_BUTTONS ! j \<in> set STANDARD_BUTTONS"
      by (simp add: length_STANDARD_BUTTONS)
    from standard_not_Button [OF this, of "decimal i"] e 3 show ?thesis
      by (simp add: button_name_def length_STANDARD_BUTTONS)
  next
    case 4
    with e show ?thesis
      by (simp add: button_name_def length_STANDARD_BUTTONS decimal_inj)
  qed
qed

section \<open>Facts about one frame\<close>

lemma binary_events_append: "binary_events n (xs @ ys) = binary_events n xs @ binary_events n ys"
  by (induction n xs rule: binary_events.induct) simp_all

lemma analog_events_append: "analog_events n (xs @ ys) = analog_events n xs @ analog_events n ys"
  by (induction n xs rule: analog_events.induct) simp_all

lemma move_events_append: "move_events d (xs @ ys) = move_events d xs @ move_events d ys"
  by (induction d xs rule: move_events.induct) simp_all

lemma binary_events_side: "binary_events n (side_events p should side nxt s) = []"
  by (cases side) (simp_all add: side_events_def Let_def callback_def)

lemma analog_events_side: "analog_events n (side_events p should side nxt s) = []"
  by (cases side) (simp_all add: side_events_def Let_def callback_def)

lemma move_events_other_side: "d \<noteq> side \<Longrightarrow> move_events d (side_events p should side nxt s) = []"
  by (cases side; cases d) (simp_all add: side_events_def Let_def callback_def)

lemma move_events_callback: "move_events d [callback side v] = (if d = side then [v] else [])"
  by (cases side; cases d) (simp_all add: callback_def)

lemma move_events_button_step: "move_events d (fst (button_step p i v pb)) = []"
  by (simp add: button_step_def Let_def)

lemma move_events_buttons: "move_events d (fst (process_buttons p i vs pb)) = []"
proof (induction vs arbitrary: i pb)
  case Nil
  show ?case by simp
next
  case (Cons v vs)
  show ?case
    using Cons.IH [of "Suc i" "snd (button_step p i v pb)"] move_events_button_step [of d p i v pb]
    by (simp add: split_beta move_events_append)
qed

lemma side_events_after_left:
  "side_events p should Right nxt
     (s\<lparr>prevAxes := (prevAxes s)(Left := a), lastNonNeutral := (lastNonNeutral s)(Left := b)\<rparr>)
   = side_events p should Right nxt s"
  by (simp add: side_events_def)

lemma poll_frame_events:
  assumes "lookup_gamepad gps (device_id p) = Some gp"
  shows "fst (poll_frame p gps now s) =
           side_events p (shouldEmit p now s) Left (axesRaw (deadzone p) gp Left) s
         @ side_events p (shouldEmit p now s) Right (axesRaw (deadzone p) gp Right) s
         @ fst (process_buttons p 0 (gp_buttons gp) (prevButtons s))"
  using assms
  by (simp add: poll_frame_def process_side_def Let_def split_beta side_events_after_left)

lemma poll_frame_absent:
  assumes "lookup_gamepad gps (device_id p) = None"
  shows "poll_frame p gps now s = ([], s)"
  using assms by (simp add: poll_frame_def)

lemma poll_frame_prevAxes:
  assumes "lookup_gamepad gps (device_id p) = Some gp"
  shows "prevAxes (snd (poll_frame p gps now s)) side = axesRaw (deadzone p) gp side"
    and "lastNonNeutral (snd (poll_frame p gps now s)) side = (axesRaw (deadzone p) gp side \<noteq> (0, 0))"
  using assms
  by (cases side; simp add: poll_frame_def process_side_def Let_def split_beta prod_eq_iff)+

lemma poll_frame_lastEmitTime:
  assumes "lookup_gamepad gps (device_id p) = Some gp"
  shows "lastEmitTime (snd (poll_frame p gps now s)) =
           (if shouldEmit p now s then now else lastEmitTime s)"
  using assms
  by (simp add: poll_frame_def process_side_def Let_def split_beta)

lemma poll_frame_prevButtons:
  assumes "lookup_gamepad gps (device_id p) = Some gp"
  shows "prevButtons (snd (poll_frame p gps now s)) = snd (process_buttons p 0 (gp_buttons gp) (prevButtons s))"
  using assms
  by (simp add: poll_frame_def process_side_def Let_def split_beta)

lemma reachable_consistent: "reachable s \<Longrightarrow> consistent s"
proof (induction rule: reachable.induct)
  case fresh
  show ?case by (simp add: consistent_def initial_refs_def)
next
  case (started s now)
  then show ?case by (simp add: consistent_def effect_start_def)
next
  case (frame s p gps now)
  show ?case
  proof (cases "lookup_gamepad gps (device_id p)")
    case None
    with frame.IH show ?thesis by (simp add: poll_frame_absent)
  next
    case (Some gp)
    show ?thesis unfolding consistent_def
      by (simp add: poll_frame_prevAxes [OF Some])
  qed
qed

section \<open>Facts about the buttons of one frame\<close>

lemma edge_trace_append:
  "edge_trace b0 xs b1 \<Longrightarrow> edge_trace b1 ys b2 \<Longrightarrow> edge_trace b0 (xs @ ys) b2"
proof -
  assume x: "edge_trace b0 xs b1" and y: "edge_trace b1 ys b2"
  show ?thesis
  proof (cases "xs = []")
    case True
    with x y show ?thesis by (simp add: edge_trace_def)
  next
    case xs: False
    show ?thesis
    proof (cases "ys = []")
      case True
      with x y show ?thesis by (simp add: edge_trace_def)
    next
      case False
      with xs x y show ?thesis
        by (simp add: edge_trace_def distinct_adj_append_iff)
    qed
  qed
qed

lemma button_step_snd: "snd (button_step p i v pb) = pb(button_name i \<mapsto> v)"
  by (simp add: button_step_def Let_def)

lemma button_step_other:
  assumes "n \<noteq> button_name i"
  shows "binary_events n (fst (button_step p i v pb)) = []"
    and "analog_events n (fst (button_step p i v pb)) = []"
  using assms by (simp_all add: button_step_def Let_def)

lemma button_step_binary:
  "binary_events (button_name i) (fst (button_step p i v pb)) =
     (if onButtonBinary p then
        (if \<not> prevValue_of pb (button_name i) > triggerThreshold p \<and> v > triggerThreshold p
         then [True]
         else if prevValue_of pb (button_name i) > triggerThreshold p \<and> \<not> v > triggerThreshold p
         then [False] else [])
      else [])"
  by (simp add: button_step_def Let_def)

lemma button_step_analog:
  "analog_events (button_name i) (fst (button_step p i v pb)) =
     (if (i = 6 \<or> i = 7) \<and> \<bar>v - prevValue_of pb (button_name i)\<bar> > triggerEpsilon p
         \<and> onButtonAnalog p
      then [v] else [])"
  by (simp add: button_step_def Let_def)

lemma button_step_cong:
  "pb (button_name i) = pb' (button_name i) \<Longrightarrow>
     fst (button_step p i v pb) = fst (button_step p i v pb')"
  by (simp add: button_step_def Let_def prevValue_of_def)

lemma process_buttons_binary:
  "binary_events (button_name k) (fst (process_buttons p i vs pb)) =
     (if i \<le> k \<and> k < i + length vs
      then binary_events (button_name k) (fst (button_step p k (vs ! (k - i)) pb)) else [])"
proof (induction vs arbitrary: i pb)
  case Nil
  show ?case by auto
next
  case (Cons v vs)
  let ?pb = "snd (button_step p i v pb)"
  have split: "fst (process_buttons p i (v # vs) pb) =
      fst (button_step p i v pb) @ fst (process_buttons p (Suc i) vs ?pb)"
    by (simp add: split_beta)
  show ?case
  proof (cases "k = i")
    case True
    have "binary_events (button_name k) (fst (process_buttons p (Suc i) vs ?pb)) = []"
      by (subst Cons.IH) (simp add: True)
    with True show ?thesis
      by (simp add: split binary_events_append del: process_buttons.simps)
  next
    case False
    then have ne: "button_name k \<noteq> button_name i"
      using button_name_inj by blast
    then have "?pb (button_name k) = pb (button_name k)"
      by (simp add: button_step_snd)
    then have same: "\<And>w. fst (button_step p k w ?pb) = fst (button_step p k w pb)"
      by (rule button_step_cong)
    have idx: "Suc i \<le> k \<Longrightarrow> (v # vs) ! (k - i) = vs ! (k - Suc i)"
      by (simp add: Suc_diff_le)
    show ?thesis
      using False idx
      by (auto simp: split binary_events_append button_step_other(1) [OF ne] Cons.IH same
          simp del: process_buttons.simps)
  qed
qed

lemma process_buttons_analog:
  "analog_events (button_name k) (fst (process_buttons p i vs pb)) =
     (if i \<le> k \<and> k < i + length vs
      then analog_events (button_name k) (fst (button_step p k (vs ! (k - i)) pb)) else [])"
proof (induction vs arbitrary: i pb)
  case Nil
  show ?case by auto
next
  case (Cons v vs)
  let ?pb = "snd (button_step p i v pb)"
  have split: "fst (process_buttons p i (v # vs) pb) =
      fst (button_step p i v pb) @ fst (process_buttons p (Suc i) vs ?pb)"
    by (simp add: split_beta)
  show ?case
  proof (cases "k = i")
    case True
    have "analog_events (button_name k) (fst (process_buttons p (Suc i) vs ?pb)) = []"
      by (subst Cons.IH) (simp add: True)
    with True show ?thesis
      by (simp add: split analog_events_append del: process_buttons.simps)
  next
    case False
    then have ne: "button_name k \<noteq> button_name i"
      using button_name_inj by blast
    then have "?pb (button_name k) = pb (button_name k)"
      by (simp add: button_step_snd)
    then have same: "\<And>w. fst (button_step p k w ?pb) = fst (button_step p k w pb)"
      by (rule button_step_cong)
    have idx: "Suc i \<le> k \<Longrightarrow> (v # vs) ! (k - i) = vs ! (k - Suc i)"
      by (simp add: Suc_diff_le)
    show ?thesis
      using False idx
      by (auto simp: split analog_events_append button_step_other(2) [OF ne] Cons.IH same
          simp del: process_buttons.simps)
  qed
qed

lemma analog_events_non_trigger:
  assumes "n \<noteq> button_name 6" and "n \<noteq> button_name 7"
  shows "analog_events n (fst (process_buttons p i vs pb)) = []"
proof (induction vs arbitrary: i pb)
  case Nil
  show ?case by simp
next
  case (Cons v vs)
  have "analog_events n (fst (button_step p i v pb)) = []"
    using assms by (auto simp: button_step_def Let_def)
  then show ?case
    by (simp add: split_beta analog_events_append Cons.IH)
qed

lemma button_step_trace:
  assumes "onButtonBinary p"
  shows "edge_trace (pressed_bit p pb n) (binary_events n (fst (button_step p i v pb)))
           (pressed_bit p (snd (button_step p i v pb)) n)"
  using assms
  by (simp add: button_step_def Let_def edge_trace_def pressed_bit_def prevValue_of_def)

lemma process_buttons_trace:
  assumes "onButtonBinary p"
  shows "edge_trace (pressed_bit p pb n) (binary_events n (fst (process_buttons p i vs pb)))
           (pressed_bit p (snd (process_buttons p i vs pb)) n)"
proof (induction vs arbitrary: i pb)
  case Nil
  show ?case by (simp add: edge_trace_def)
next
  case (Cons v vs)
  show ?case
    using edge_trace_append [OF button_step_trace [OF assms, of pb n i v]
        Cons.IH [of "snd (button_step p i v pb)" "Suc i"]]
    by (simp add: split_beta binary_events_append)
qed

lemma poll_frame_trace:
  assumes "onButtonBinary p"
  shows "edge_trace (pressed_bit p (prevButtons s) n) (binary_events n (fst (poll_frame p gps now s)))
           (pressed_bit p (prevButtons (snd (poll_frame p gps now s))) n)"
proof (cases "lookup_gamepad gps (device_id p)")
  case None
  then show ?thesis by (simp add: poll_frame_absent edge_trace_def)
next
  case (Some gp)
  show ?thesis
    using process_buttons_trace [OF assms, of "prevButtons s" n 0 "gp_buttons gp"]
    by (simp add: poll_frame_events [OF Some] poll_frame_prevButtons [OF Some]
        binary_events_append binary_events_side)
qed

lemma run_trace:
  assumes "onButtonBinary p"
  shows "edge_trace (pressed_bit p (prevButtons s) n) (binary_events n (fst (run p fs s)))
           (pressed_bit p (prevButtons (snd (run p fs s))) n)"
proof (induction fs arbitrary: s)
  case Nil
  show ?case by (simp add: edge_trace_def)
next
  case (Cons f fs)
  show ?case
    using edge_trace_append [OF poll_frame_trace [OF assms, of s n "fst f" "snd f"]
        Cons.IH [of "snd (poll_frame p (fst f) (snd f) s)"]]
    by (simp add: split_beta binary_events_append)
qed

lemma no_callback_no_binary_step:
  "\<not> onButtonBinary p \<Longrightarrow> binary_events n (fst (button_step p i v pb)) = []"
  by (simp add: button_step_def Let_def)

lemma no_callback_no_binary_buttons:
  "\<not> onButtonBinary p \<Longrightarrow> binary_events n (fst (process_buttons p i vs pb)) = []"
  by (induction vs arbitrary: i pb)
     (simp_all add: split_beta binary_events_append no_callback_no_binary_step)

lemma no_callback_no_binary_frame:
  assumes "\<not> onButtonBinary p"
  shows "binary_events n (fst (poll_frame p gps now s)) = []"
proof (cases "lookup_gamepad gps (device_id p)")
  case None
  then show ?thesis by (simp add: poll_frame_absent)
next
  case (Some gp)
  show ?thesis
    by (simp add: poll_frame_events [OF Some] binary_events_append binary_events_side
        no_callback_no_binary_buttons [OF assms])
qed

lemma no_callback_no_binary_run:
  "\<not> onButtonBinary p \<Longrightarrow> binary_events n (fst (run p fs s)) = []"
  by (induction fs arbitrary: s)
     (simp_all add: split_beta binary_events_append no_callback_no_binary_frame)

lemma run_alternates: "distinct_adj (binary_events n (fst (run p fs s)))"
proof (cases "onButtonBinary p")
  case True
  from run_trace [OF this, of s n fs] show ?thesis by (simp add: edge_trace_def)
next
  case False
  then show ?thesis by (simp add: no_callback_no_binary_run)
qed

lemma poll_frame_binary:
  assumes "lookup_gamepad gps (device_id p) = Some gp"
  shows "binary_events (button_name k) (fst (poll_frame p gps now s)) =
     (if k < length (gp_buttons gp)
      then binary_events (button_name k) (fst (button_step p k (gp_buttons gp ! k) (prevButtons s)))
      else [])"
  by (simp add: poll_frame_events [OF assms] binary_events_append binary_events_side
      process_buttons_binary)

lemma poll_frame_analog:
  assumes "lookup_gamepad gps (device_id p) = Some gp"
  shows "analog_events (button_name k) (fst (poll_frame p gps now s)) =
     (if k < length (gp_buttons gp)
      then analog_events (button_name k) (fst (button_step p k (gp_buttons gp ! k) (prevButtons s)))
      else [])"
  by (simp add: poll_frame_events [OF assms] analog_events_append analog_events_side
      process_buttons_analog)

lemma process_buttons_prev:
  "snd (process_buttons p i vs pb) (button_name k) =
     (if i \<le> k \<and> k < i + length vs then Some (vs ! (k - i)) else pb (button_name k))"
proof (induction vs arbitrary: i pb)
  case Nil
  show ?case by auto
next
  case (Cons v vs)
  let ?pb = "snd (button_step p i v pb)"
  have split: "snd (process_buttons p i (v # vs) pb) = snd (process_buttons p (Suc i) vs ?pb)"
    by (simp add: split_beta)
  show ?case
  proof (cases "k = i")
    case True
    have "snd (process_buttons p (Suc i) vs ?pb) (button_name k) = ?pb (button_name k)"
      by (subst Cons.IH) (simp add: True)
    with True show ?thesis
      by (simp add: split button_step_snd del: process_buttons.simps)
  next
    case False
    then have ne: "button_name k \<noteq> button_name i"
      using button_name_inj by blast
    have idx: "Suc i \<le> k \<Longrightarrow> (v # vs) ! (k - i) = vs ! (k - Suc i)"
      by (simp add: Suc_diff_le)
    show ?thesis
      using False idx ne
      by (auto simp: split Cons.IH button_step_snd simp del: process_buttons.simps)
  qed
qed

lemma poll_frame_prevValue:
  assumes "lookup_gamepad gps (device_id p) = Some gp" and "k < length (gp_buttons gp)"
  shows "prevValue_of (prevButtons (snd (poll_frame p gps now s))) (button_name k) = gp_buttons gp ! k"
  using assms(2)
  by (simp add: poll_frame_prevButtons [OF assms(1)] prevValue_of_def process_buttons_prev)

lemma LeftTrigger: "button_name 6 = ''LeftTrigger''"
  by (simp add: button_name_def STANDARD_BUTTONS_def)

lemma trigger_frame_lookup:
  "lookup_gamepad (fst (trigger_frame v t)) (device_id (default_props 0))
     = Some (pad [] [0, 0, 0, 0, 0, 0, v])"
  by (simp add: trigger_frame_def lookup_gamepad_def default_props_def)

lemma trigger_frame_analog:
  "analog_events ''LeftTrigger'' (fst (poll_frame (default_props 0) (fst (trigger_frame v t)) t' s)) =
     (if \<bar>v - prevValue_of (prevButtons s) ''LeftTrigger''\<bar> > 1 / 100 then [v] else [])"
  unfolding LeftTrigger [symmetric] poll_frame_analog [OF trigger_frame_lookup] button_step_analog
  by (simp add: pad_def default_props_def)

lemma trigger_frame_binary:
  "binary_events ''LeftTrigger'' (fst (poll_frame (default_props 0) (fst (trigger_frame v t)) t' s)) =
     (if \<not> prevValue_of (prevButtons s) ''LeftTrigger'' > 1 / 10 \<and> v > 1 / 10 then [True]
      else if prevValue_of (prevButtons s) ''LeftTrigger'' > 1 / 10 \<and> \<not> v > 1 / 10 then [False]
      else [])"
  unfolding LeftTrigger [symmetric] poll_frame_binary [OF trigger_frame_lookup] button_step_binary
  by (simp add: pad_def default_props_def)

lemma trigger_frame_prev:
  "prevValue_of (prevButtons (snd (poll_frame (default_props 0) (fst (trigger_frame v t)) t' s)))
     ''LeftTrigger'' = v"
  unfolding LeftTrigger [symmetric]
  by (subst poll_frame_prevValue [OF trigger_frame_lookup]) (simp_all add: pad_def)

lemma fresh_prev: "prevValue_of (prevButtons (effect_start t initial_refs)) n = 0"
  by (simp add: effect_start_def initial_refs_def prevValue_of_def)

lemma trigger_scenario_analog: "analog_events ''LeftTrigger'' (fst (run (default_props 0) trigger_scenario
             (effect_start 0 initial_refs))) = [5 / 100, 15 / 100, 3 / 10, 0]"
  by (simp add: trigger_scenario_def split_beta analog_events_append trigger_frame_analog
      trigger_frame_prev fresh_prev)

lemma trigger_scenario_binary: "binary_events ''LeftTrigger'' (fst (run (default_props 0) trigger_scenario
             (effect_start 0 initial_refs))) = [True, False]"
  by (simp add: trigger_scenario_def split_beta binary_events_append trigger_frame_binary
      trigger_frame_prev fresh_prev)

section \<open>Facts about the axes over several frames\<close>

lemma on_change_frame:
  assumes "reachable s"
    and "joystickEmitMode p = JoystickEmitOnChange"
    and "has_callback p side"
    and "lookup_gamepad gps (device_id p) = Some gp"
  shows "move_events side (fst (poll_frame p gps now s)) =
           (if axesRaw (deadzone p) gp side \<noteq> prevAxes s side
               \<or> (axesRaw (deadzone p) gp side \<noteq> (0, 0) \<and> shouldEmit p now s)
            then [axesRaw (deadzone p) gp side] else [])"
proof -
  have c: "lastNonNeutral s side = (prevAxes s side \<noteq> (0, 0))"
    using reachable_consistent [OF assms(1)] by (simp add: consistent_def)
  obtain x y where n: "axesRaw (deadzone p) gp side = (x, y)"
    by (cases "axesRaw (deadzone p) gp side")
  obtain x' y' where pr: "prevAxes s side = (x', y')"
    by (cases "prevAxes s side")
  have other: "\<And>d v. d \<noteq> side \<Longrightarrow> move_events side (side_events p (shouldEmit p now s) d v s) = []"
    by (simp add: move_events_other_side)
  have own: "move_events side (side_events p (shouldEmit p now s) side (x, y) s) =
      (if (x, y) \<noteq> (x', y') \<or> ((x, y) \<noteq> (0, 0) \<and> shouldEmit p now s) then [(x, y)] else [])"
    using assms(2,3) c pr
    by (auto simp: side_events_def Let_def move_events_callback)
  show ?thesis
    using own other n pr
    by (cases side)
      (simp_all add: poll_frame_events [OF assms(4)] move_events_append move_events_buttons)
qed

lemma left_x_run:
  assumes m: "joystickEmitMode p = JoystickEmitOnChange"
    and c: "onLeftJoystickMove p"
    and d: "deadzone p = 1 / 10"
    and l1: "lookup_gamepad gps1 (device_id p) = Some g1"
    and l2: "lookup_gamepad gps2 (device_id p) = Some g2"
    and l3: "lookup_gamepad gps3 (device_id p) = Some g3"
    and l4: "lookup_gamepad gps4 (device_id p) = Some g4"
    and a1: "axesRaw (1 / 10) g1 Left = (0, 0)"
    and a2: "axesRaw (1 / 10) g2 Left = (1 / 2, 0)"
    and a3: "axesRaw (1 / 10) g3 Left = (0, 0)"
    and a4: "axesRaw (1 / 10) g4 Left = (0, 0)"
  shows "move_events Left
           (fst (run p [(gps1, t1), (gps2, t2), (gps3, t3), (gps4, t4)] (effect_start t0 initial_refs)))
         = [(1 / 2, 0), (0, 0)]"
proof -
  let ?s0 = "effect_start t0 initial_refs"
  let ?s1 = "snd (poll_frame p gps1 t1 ?s0)"
  let ?s2 = "snd (poll_frame p gps2 t2 ?s1)"
  let ?s3 = "snd (poll_frame p gps3 t3 ?s2)"
  have h: "has_callback p Left" using c by (simp add: has_callback_def)
  have r0: "reachable ?s0" by (intro reachable.started reachable.fresh)
  have r1: "reachable ?s1" by (intro reachable.frame r0)
  have r2: "reachable ?s2" by (intro reachable.frame r1)
  have r3: "reachable ?s3" by (intro reachable.frame r2)
  have p0: "prevAxes ?s0 Left = (0, 0)" by (simp add: effect_start_def initial_refs_def)
  have p1: "prevAxes ?s1 Left = (0, 0)" by (simp add: poll_frame_prevAxes(1) [OF l1] d a1)
  have p2: "prevAxes ?s2 Left = (1 / 2, 0)" by (simp add: poll_frame_prevAxes(1) [OF l2] d a2)
  have p3: "prevAxes ?s3 Left = (0, 0)" by (simp add: poll_frame_prevAxes(1) [OF l3] d a3)
  have e1: "move_events Left (fst (poll_frame p gps1 t1 ?s0)) = []"
    by (simp add: on_change_frame [OF r0 m h l1] d a1 p0)
  have e2: "move_events Left (fst (poll_frame p gps2 t2 ?s1)) = [(1 / 2, 0)]"
    by (simp add: on_change_frame [OF r1 m h l2] d a2 p1)
  have e3: "move_events Left (fst (poll_frame p gps3 t3 ?s2)) = [(0, 0)]"
    by (simp add: on_change_frame [OF r2 m h l3] d a3 p2)
  have e4: "move_events Left (fst (poll_frame p gps4 t4 ?s3)) = []"
    by (simp add: on_change_frame [OF r3 m h l4] d a4 p3)
  show ?thesis
    by (simp add: split_beta move_events_append e1 e2 e3 e4)
qed

lemma axis_frame_lookup:
  "lookup_gamepad (fst (axis_frame x t)) (device_id (default_props 0)) = Some (pad [x, 0, 0, 0] [])"
  by (simp add: axis_frame_def lookup_gamepad_def default_props_def)

lemma axis_frame_raw:
  "axesRaw (1 / 10) (pad [x, 0, 0, 0] []) Left = (if \<bar>x\<bar> > 1 / 10 then x else 0, 0)"
  by (simp add: axesRaw_def axis_def pad_def filter_x_def filter_y_def)

section \<open>Facts about the life cycle\<close>

lemma run_cleanup_id: "run_cleanup h = h"
  by (simp add: run_cleanup_def effect_cleanup_def)

lemma run_callbacks_queue:
  "raf_queue (snd (run_callbacks ps gps now h)) = raf_queue h @ ps"
  by (induction ps arbitrary: h) (simp_all add: split_beta poll_def)

lemma animation_frame_queue: "raf_queue (snd (animation_frame gps now h)) = raf_queue h"
  by (simp add: animation_frame_def run_callbacks_queue)

lemma animation_frame_single:
  assumes "raf_queue h = [p]"
  shows "fst (animation_frame gps now h) = fst (poll_frame p gps now (hook_refs h))"
    and "hook_refs (snd (animation_frame gps now h)) = snd (poll_frame p gps now (hook_refs h))"
  using assms by (simp_all add: animation_frame_def poll_def split_beta)

lemma mount_queue: "raf_queue (mount p t) = [p]"
  by (simp add: mount_def effect_def)

lemma mount_refs: "hook_refs (mount p t) = effect_start t initial_refs"
  by (simp add: mount_def effect_def)

lemma reconfigure_refs: "hook_refs (reconfigure p now h) = effect_start now (hook_refs h)"
  by (simp add: reconfigure_def effect_def run_cleanup_id)

lemma poll_frame_buttons_only:
  assumes "prevButtons s = prevButtons s'"
  shows "binary_events n (fst (poll_frame p gps now s)) = binary_events n (fst (poll_frame p gps now' s'))"
    and "analog_events n (fst (poll_frame p gps now s)) = analog_events n (fst (poll_frame p gps now' s'))"
proof -
  show "binary_events n (fst (poll_frame p gps now s)) = binary_events n (fst (poll_frame p gps now' s'))"
  proof (cases "lookup_gamepad gps (device_id p)")
    case None
    then show ?thesis by (simp add: poll_frame_absent)
  next
    case (Some gp)
    show ?thesis
      by (simp add: poll_frame_events [OF Some] binary_events_append binary_events_side assms)
  qed
  show "analog_events n (fst (poll_frame p gps now s)) = analog_events n (fst (poll_frame p gps now' s'))"
  proof (cases "lookup_gamepad gps (device_id p)")
    case None
    then show ?thesis by (simp add: poll_frame_absent)
  next
    case (Some gp)
    show ?thesis
      by (simp add: poll_frame_events [OF Some] analog_events_append analog_events_side assms)
  qed
qed

lemma poll_frame_prevButtons_only:
  assumes "prevButtons s = prevButtons s'"
  shows "prevButtons (snd (poll_frame p gps now s)) = prevButtons (snd (poll_frame p gps now' s'))"
proof (cases "lookup_gamepad gps (device_id p)")
  case None
  then show ?thesis by (simp add: poll_frame_absent assms)
next
  case (Some gp)
  show ?thesis by (simp add: poll_frame_prevButtons [OF Some] assms)
qed

lemma poll_parts:
  "fst (poll p gps now h) = fst (poll_frame p gps now (hook_refs h))"
  "hook_refs (snd (poll p gps now h)) = snd (poll_frame p gps now (hook_refs h))"
  by (simp_all add: poll_def split_beta)

lemma run_callbacks_buttons_only:
  assumes "prevButtons (hook_refs h) = prevButtons (hook_refs h')"
  shows "binary_events n (fst (run_callbacks ps gps now h))
           = binary_events n (fst (run_callbacks ps gps now h'))
         \<and> analog_events n (fst (run_callbacks ps gps now h))
           = analog_events n (fst (run_callbacks ps gps now h'))"
  using assms
proof (induction ps arbitrary: h h')
  case Nil
  show ?case by simp
next
  case (Cons p ps)
  let ?h1 = "snd (poll p gps now h)" and ?h1' = "snd (poll p gps now h')"
  have "prevButtons (hook_refs ?h1) = prevButtons (hook_refs ?h1')"
    unfolding poll_parts by (rule poll_frame_prevButtons_only [OF Cons.prems])
  from Cons.IH [OF this] poll_frame_buttons_only [OF Cons.prems, of n p gps now now]
  show ?case
    by (simp add: split_beta binary_events_append analog_events_append poll_parts)
qed

lemma animation_frame_pair:
  assumes "raf_queue h = [p, q]"
  shows "fst (animation_frame gps now h) =
           fst (poll_frame p gps now (hook_refs h))
         @ fst (poll_frame q gps now (snd (poll_frame p gps now (hook_refs h))))"
  using assms by (simp add: animation_frame_def poll_def split_beta)

lemma reconfigure_queue: "raf_queue (reconfigure p now h) = raf_queue h @ [p]"
  by (simp add: reconfigure_def effect_def run_cleanup_id)

lemma held_lookup: "lookup_gamepad held (device_id (default_props 0)) = Some (pad [1 / 2, 0, 0, 0] [1])"
  "lookup_gamepad held (device_id faster) = Some (pad [1 / 2, 0, 0, 0] [1])"
  by (simp_all add: held_def lookup_gamepad_def default_props_def faster_def)

lemma Face1: "button_name 0 = ''Face1''"
  by (simp add: button_name_def STANDARD_BUTTONS_def)

lemma effect_start_fields:
  "lastEmitTime (effect_start t s) = t"
  "prevAxes (effect_start t s) = prevAxes s"
  "lastNonNeutral (effect_start t s) = lastNonNeutral s"
  "prevButtons (effect_start t s) = prevButtons s"
  by (simp_all add: effect_start_def)

lemma held_frame_refs:
  "hook_refs (snd (animation_frame held 16 (mount (default_props 0) 0)))
     = snd (poll_frame (default_props 0) held 16 (effect_start 0 initial_refs))"
  by (simp add: animation_frame_single(2) [OF mount_queue] mount_refs)

lemma held_frame_kept:
  "prevAxes (snd (poll_frame (default_props 0) held 16 (effect_start 0 initial_refs))) Left
     = (1 / 2, 0)"
  "lastNonNeutral (snd (poll_frame (default_props 0) held 16 (effect_start 0 initial_refs))) Left"
  "prevButtons (snd (poll_frame (default_props 0) held 16 (effect_start 0 initial_refs)))
     ''Face1'' = Some 1"
proof -
  let ?s1 = "snd (poll_frame (default_props 0) held 16 (effect_start 0 initial_refs))"
  show "prevAxes ?s1 Left = (1 / 2, 0)"
    unfolding poll_frame_prevAxes(1) [OF held_lookup(1)]
    by (simp add: axesRaw_def axis_def pad_def filter_x_def filter_y_def default_props_def)
  show "lastNonNeutral ?s1 Left"
    unfolding poll_frame_prevAxes(2) [OF held_lookup(1)]
    by (simp add: axesRaw_def axis_def pad_def filter_x_def filter_y_def default_props_def)
  have "prevButtons ?s1 (button_name 0) = Some 1"
    unfolding poll_frame_prevButtons [OF held_lookup(1)] process_buttons_prev
    by (simp add: pad_def)
  then show "prevButtons ?s1 ''Face1'' = Some 1"
    by (simp add: Face1)
qed

lemma reconfigured_queue: "raf_queue reconfigured = [default_props 0, faster]"
  by (simp add: reconfigured_def reconfigure_queue animation_frame_queue mount_queue)

lemma reconfigured_refs:
  "hook_refs reconfigured =
     effect_start 20 (snd (poll_frame (default_props 0) held 16 (effect_start 0 initial_refs)))"
  by (simp add: reconfigured_def reconfigure_refs animation_frame_single(2) [OF mount_queue] mount_refs)

section \<open>Facts about the registry\<close>

lemma index_markBusy: "map index (markBusy i b gs) = map index gs"
  by (induction gs) (simp_all add: markBusy_def)

lemma updateGamepads_slots:
  assumes "\<forall>k < length gps. \<forall>gp. gps ! k = Some gp \<longrightarrow> gp_index gp = j + k"
  shows "\<exists>ks. map index (updateGamepads prev gps) = map (\<lambda>k. Some (int k)) ks
              \<and> sorted_wrt (<) ks \<and> (\<forall>k \<in> set ks. j \<le> k)"
  using assms
proof (induction gps arbitrary: j)
  case Nil
  show ?case by simp
next
  case (Cons g gps)
  have tl: "\<forall>k < length gps. \<forall>gp. gps ! k = Some gp \<longrightarrow> gp_index gp = Suc j + k"
  proof (intro allI impI)
    fix k gp
    assume "k < length gps" and "gps ! k = Some gp"
    with Cons.prems have "gp_index gp = j + Suc k"
      by (metis Suc_less_eq length_Cons nth_Cons_Suc)
    then show "gp_index gp = Suc j + k" by simp
  qed
  from Cons.IH [OF tl] obtain ks where
    ks: "map index (updateGamepads prev gps) = map (\<lambda>k. Some (int k)) ks"
    "sorted_wrt (<) ks" "\<forall>k \<in> set ks. Suc j \<le> k"
    by blast
  show ?case
  proof (cases g)
    case None
    with ks show ?thesis
      by (intro exI [of _ ks]) auto
  next
    case (Some gp)
    with Cons.prems have "gp_index gp = j"
      by (metis add.right_neutral length_Cons nth_Cons_0 zero_less_Suc)
    with Some ks show ?thesis
      by (intro exI [of _ "j # ks"]) (auto simp: gamepad_info_def)
  qed
qed

lemma published_ordered: "published gs \<Longrightarrow> ordered_slots gs"
proof (induction rule: published.induct)
  case (refreshed gps prev)
  then have "\<forall>k < length gps. \<forall>gp. gps ! k = Some gp \<longrightarrow> gp_index gp = 0 + k"
    by (simp add: api_snapshot_def)
  from updateGamepads_slots [OF this] show ?case
    unfolding ordered_slots_def by blast
next
  case (marked gs i b)
  then show ?case by (simp add: ordered_slots_def index_markBusy)
qed

lemma nextAvailable_markBusy: "nextAvailable (markBusy i True gs) \<noteq> Some i"
proof
  assume "nextAvailable (markBusy i True gs) = Some i"
  then obtain g where f: "find available (markBusy i True gs) = Some g" and i: "index g = Some i"
    by (auto simp: nextAvailable_def split: option.splits)
  from f have "g \<in> set (markBusy i True gs)" and a: "available g"
    by (auto simp: find_Some_iff)
  then have "g \<in> (\<lambda>g0. if index g0 = Some i then g0\<lparr>busy := Some True\<rparr> else g0) ` set gs"
    by (simp add: markBusy_def)
  then obtain g0 where "g = (if index g0 = Some i then g0\<lparr>busy := Some True\<rparr> else g0)"
    by blast
  with i have "busy g = Some True"
    by (cases "index g0 = Some i") simp_all
  with a show False by (simp add: available_def)
qed

lemma nextAvailable_ordered:
  assumes "ordered_slots gs"
  shows "(nextAvailable gs = None) = (\<forall>g \<in> set gs. \<not> available g)"
    and "nextAvailable gs = Some i \<Longrightarrow>
           (\<exists>g \<in> set gs. index g = Some i \<and> available g)
         \<and> (\<forall>g \<in> set gs. index g = Some i \<longrightarrow> available g)
         \<and> (\<forall>g \<in> set gs. available g \<longrightarrow> (\<exists>j. index g = Some j \<and> i \<le> j))"
proof -
  from assms obtain ks where ks: "map index gs = map (\<lambda>k. Some (int k)) ks"
    and srt: "sorted_wrt (<) ks"
    unfolding ordered_slots_def by blast
  from ks have len: "length ks = length gs"
    by (metis length_map)
  have idx: "index (gs ! a) = Some (int (ks ! a))" if "a < length gs" for a
    using that ks len by (metis nth_map)
  show "(nextAvailable gs = None) = (\<forall>g \<in> set gs. \<not> available g)"
  proof
    assume n: "nextAvailable gs = None"
    show "\<forall>g \<in> set gs. \<not> available g"
    proof (cases "find available gs")
      case None
      then show ?thesis by (simp add: find_None_iff)
    next
      case (Some g)
      then obtain a where "a < length gs" "g = gs ! a"
        by (auto simp: find_Some_iff)
      with idx have "index g \<noteq> None" by simp
      with n Some show ?thesis by (simp add: nextAvailable_def)
    qed
  next
    assume "\<forall>g \<in> set gs. \<not> available g"
    then have "find available gs = None" by (simp add: find_None_iff)
    then show "nextAvailable gs = None" by (simp add: nextAvailable_def)
  qed
  show "(\<exists>g \<in> set gs. index g = Some i \<and> available g)
         \<and> (\<forall>g \<in> set gs. index g = Some i \<longrightarrow> available g)
         \<and> (\<forall>g \<in> set gs. available g \<longrightarrow> (\<exists>j. index g = Some j \<and> i \<le> j))"
    if s: "nextAvailable gs = Some i"
  proof -
    from s obtain g where f: "find available gs = Some g" and i: "index g = Some i"
      by (auto simp: nextAvailable_def split: option.splits)
    from f obtain a where a: "a < length gs" "available (gs ! a)" "g = gs ! a"
      "\<forall>b < a. \<not> available (gs ! b)"
      by (auto simp: find_Some_iff)
    from a i idx have ia: "i = int (ks ! a)" by simp
    have 1: "\<exists>g \<in> set gs. index g = Some i \<and> available g"
      using a i by auto
    have 2: "\<forall>g' \<in> set gs. index g' = Some i \<longrightarrow> available g'"
    proof (intro ballI impI)
      fix g' assume "g' \<in> set gs" and e: "index g' = Some i"
      then obtain c where c: "c < length gs" "g' = gs ! c"
        by (auto simp: in_set_conv_nth)
      with e idx ia have "ks ! c = ks ! a" by simp
      moreover have "distinct ks"
        using srt strict_sorted_iff by auto
      ultimately have "c = a"
        using c a len by (simp add: nth_eq_iff_index_eq)
      with c a show "available g'" by simp
    qed
    have 3: "\<forall>g' \<in> set gs. available g' \<longrightarrow> (\<exists>j. index g' = Some j \<and> i \<le> j)"
    proof (intro ballI impI)
      fix g' assume "g' \<in> set gs" and av: "available g'"
      then obtain c where c: "c < length gs" "g' = gs ! c"
        by (auto simp: in_set_conv_nth)
      with av a have "\<not> c < a" by blast
      then have "ks ! a \<le> ks ! c"
      proof (cases "c = a")
        case True then show ?thesis by simp
      next
        case False
        with \<open>\<not> c < a\<close> have "a < c" by simp
        with srt c len have "ks ! a < ks ! c"
          by (simp add: sorted_wrt_nth_less)
        then show ?thesis by simp
      qed
      with c idx ia show "\<exists>j. index g' = Some j \<and> i \<le> j" by simp
    qed
    from 1 2 3 show ?thesis by blast
  qed
qed

section \<open>Deadzone filter\<close>

text \<open>
  C4. For every raw axis value the deadzone filter gives exactly 0 when
  \<open>|v| \<le> deadzone\<close>; otherwise it gives \<open>v\<close> unchanged for the X axes (raw indices 0
  and 2) and \<open>-v\<close> for the Y axes (raw indices 1 and 3).
\<close>

theorem deadzone_filter:
  "axesRaw dz (gp\<lparr>gp_axes := a0 # a1 # a2 # a3 # rest\<rparr>) Left =
     (if \<bar>a0\<bar> \<le> dz then 0 else a0, if \<bar>a1\<bar> \<le> dz then 0 else - a1)
   \<and> axesRaw dz (gp\<lparr>gp_axes := a0 # a1 # a2 # a3 # rest\<rparr>) Right =
     (if \<bar>a2\<bar> \<le> dz then 0 else a2, if \<bar>a3\<bar> \<le> dz then 0 else - a3)"
  by (simp add: axesRaw_def axis_def filter_x_def filter_y_def)

theorem deadzone_filter_witness:
  "axesRaw (1 / 10) ((pad [] [])\<lparr>gp_axes := [1 / 2, 1 / 20, - (1 / 10), - 1]\<rparr>) Left = (1 / 2, 0)
   \<and> axesRaw (1 / 10) ((pad [] [])\<lparr>gp_axes := [1 / 2, 1 / 20, - (1 / 10), - 1]\<rparr>) Right = (0, 1)"
  using deadzone_filter [where dz = "1 / 10" and gp = "pad [] []" and ?a0.0 = "1 / 2"
      and ?a1.0 = "1 / 20" and ?a2.0 = "- (1 / 10)" and ?a3.0 = "- 1" and rest = "[]"]
  by simp

section \<open>Axis emission\<close>

text \<open>
  C1. Under \<open>JoystickEmitOnChange\<close>, in every processed frame and for each side, the
  move callback is called exactly when the deadzone-filtered pair differs from the pair
  remembered for that side, or the pair is non-neutral and the frame is rate-eligible; it
  is then called once, with the filtered pair. In particular a neutral pair after a
  non-neutral one calls it once with \<open>(0, 0)\<close> whether or not the frame is rate-eligible,
  and a neutral pair after a neutral one calls nothing.
\<close>

theorem emit_on_change:
  assumes "reachable s"
    and "joystickEmitMode p = JoystickEmitOnChange"
    and "has_callback p side"
    and "lookup_gamepad gps (device_id p) = Some gp"
  shows "move_events side (fst (poll_frame p gps now s)) =
           (if axesRaw (deadzone p) gp side \<noteq> prevAxes s side
               \<or> (axesRaw (deadzone p) gp side \<noteq> (0, 0) \<and> shouldEmit p now s)
            then [axesRaw (deadzone p) gp side] else [])
         \<and> (prevAxes s side \<noteq> (0, 0) \<and> axesRaw (deadzone p) gp side = (0, 0)
              \<longrightarrow> move_events side (fst (poll_frame p gps now s)) = [(0, 0)])
         \<and> (prevAxes s side = (0, 0) \<and> axesRaw (deadzone p) gp side = (0, 0)
              \<longrightarrow> move_events side (fst (poll_frame p gps now s)) = [])"
  using on_change_frame [OF assms, of now] by auto

theorem emit_on_change_witness:
  "reachable (snd (poll_frame (default_props 0) [Some (pad [1 / 2, 0, 0, 0] [])] 1
               (effect_start 0 initial_refs)))
   \<and> joystickEmitMode (default_props 0) = JoystickEmitOnChange
   \<and> has_callback (default_props 0) Left
   \<and> lookup_gamepad [Some (pad [0, 0, 0, 0] [])] (device_id (default_props 0))
        = Some (pad [0, 0, 0, 0] [])
   \<and> \<not> shouldEmit (default_props 0) 2
          (snd (poll_frame (default_props 0) [Some (pad [1 / 2, 0, 0, 0] [])] 1
                 (effect_start 0 initial_refs)))
   \<and> move_events Left
        (fst (poll_frame (default_props 0) [Some (pad [0, 0, 0, 0] [])] 2
               (snd (poll_frame (default_props 0) [Some (pad [1 / 2, 0, 0, 0] [])] 1
                      (effect_start 0 initial_refs))))) = [(0, 0)]"
proof -
  let ?p = "default_props 0"
  let ?g1 = "[Some (pad [1 / 2, 0, 0, 0] [])]"
  let ?g2 = "[Some (pad [0, 0, 0, 0] [])]"
  let ?s = "snd (poll_frame ?p ?g1 1 (effect_start 0 initial_refs))"
  have r: "reachable ?s"
    by (intro reachable.frame reachable.started reachable.fresh)
  have m: "joystickEmitMode ?p = JoystickEmitOnChange"
    by (simp add: default_props_def)
  have h: "has_callback ?p Left"
    by (simp add: default_props_def has_callback_def)
  have l1: "lookup_gamepad ?g1 (device_id ?p) = Some (pad [1 / 2, 0, 0, 0] [])"
    by (simp add: default_props_def lookup_gamepad_def)
  have l: "lookup_gamepad ?g2 (device_id ?p) = Some (pad [0, 0, 0, 0] [])"
    by (simp add: default_props_def lookup_gamepad_def)
  have pv: "prevAxes ?s Left \<noteq> (0, 0)"
    unfolding poll_frame_prevAxes(1) [OF l1]
    by (simp add: axesRaw_def axis_def pad_def filter_x_def filter_y_def default_props_def)
  have nx: "axesRaw (deadzone ?p) (pad [0, 0, 0, 0] []) Left = (0, 0)"
    by (simp add: axesRaw_def axis_def pad_def filter_x_def filter_y_def default_props_def)
  have "\<not> shouldEmit ?p 1 (effect_start 0 initial_refs)"
    by (simp add: shouldEmit_def effect_start_def default_props_def)
  then have "lastEmitTime ?s = 0"
    unfolding poll_frame_lastEmitTime [OF l1] by (simp add: effect_start_def)
  then have ns: "\<not> shouldEmit ?p 2 ?s"
    unfolding shouldEmit_def by (simp add: default_props_def)
  from emit_on_change [OF r m h l, of 2] pv nx
  have "move_events Left (fst (poll_frame ?p ?g2 2 ?s)) = [(0, 0)]"
    by blast
  with r m h l ns show ?thesis by blast
qed

section \<open>Button edges\<close>

text \<open>
  C2. In every processed frame and for every button channel, with \<open>pressed\<close> the strict
  comparison of the raw value with the threshold and \<open>wasPressed\<close> the same comparison
  for the remembered value, a binary event \<open>True\<close> is delivered exactly when
  \<open>\<not> wasPressed \<and> pressed\<close> and a binary event \<open>False\<close> exactly when
  \<open>wasPressed \<and> \<not> pressed\<close>; so a channel gets at most one edge event per frame, and
  over any sequence of frames consecutive binary events of one channel alternate.
\<close>

theorem button_edges:
  assumes "lookup_gamepad gps (device_id p) = Some gp"
    and "k < length (gp_buttons gp)"
    and "onButtonBinary p"
  shows "binary_events (button_name k) (fst (poll_frame p gps now s)) =
           (let pressed = (gp_buttons gp ! k > triggerThreshold p);
                wasPressed = (prevValue_of (prevButtons s) (button_name k) > triggerThreshold p)
            in if \<not> wasPressed \<and> pressed then [True]
               else if wasPressed \<and> \<not> pressed then [False] else [])
         \<and> length (binary_events (button_name k) (fst (poll_frame p gps now s))) \<le> 1
         \<and> distinct_adj (binary_events n (fst (run p frames s0)))"
proof -
  have e: "binary_events (button_name k) (fst (poll_frame p gps now s)) =
           (let pressed = (gp_buttons gp ! k > triggerThreshold p);
                wasPressed = (prevValue_of (prevButtons s) (button_name k) > triggerThreshold p)
            in if \<not> wasPressed \<and> pressed then [True]
               else if wasPressed \<and> \<not> pressed then [False] else [])"
    using assms(2,3)
    by (simp add: poll_frame_binary [OF assms(1)] button_step_binary Let_def)
  have "length (binary_events (button_name k) (fst (poll_frame p gps now s))) \<le> 1"
    unfolding e by (simp add: Let_def)
  with e run_alternates show ?thesis by blast
qed

theorem button_edges_witness:
  "lookup_gamepad [Some (pad [] [1])] (device_id (default_props 0)) = Some (pad [] [1])
   \<and> 0 < length (gp_buttons (pad [] [1]))
   \<and> onButtonBinary (default_props 0)
   \<and> binary_events (button_name 0)
        (fst (poll_frame (default_props 0) [Some (pad [] [1])] 16 (effect_start 0 initial_refs)))
      = [True]"
proof -
  have l: "lookup_gamepad [Some (pad [] [1])] (device_id (default_props 0)) = Some (pad [] [1])"
    by (simp add: lookup_gamepad_def default_props_def)
  have k: "0 < length (gp_buttons (pad [] [1]))"
    by (simp add: pad_def)
  have c: "onButtonBinary (default_props 0)"
    by (simp add: default_props_def)
  from button_edges [OF l k c, where now = 16 and s = "effect_start 0 initial_refs"]
  have "binary_events (button_name 0)
        (fst (poll_frame (default_props 0) [Some (pad [] [1])] 16 (effect_start 0 initial_refs)))
      = [True]"
    by (simp add: fresh_prev pad_def default_props_def)
  with l k c show ?thesis by blast
qed

section \<open>Analog trigger events\<close>

lemma poll_frame_analog_non_trigger:
  assumes "n \<noteq> button_name 6" and "n \<noteq> button_name 7"
  shows "analog_events n (fst (poll_frame p gps now s)) = []"
proof (cases "lookup_gamepad gps (device_id p)")
  case None
  then show ?thesis by (simp add: poll_frame_absent)
next
  case (Some gp)
  show ?thesis
    by (simp add: poll_frame_events [OF Some] analog_events_append analog_events_side
        analog_events_non_trigger [OF assms])
qed

lemma scenario_third_frame:
  "binary_events ''LeftTrigger''
     (fst (poll_frame (default_props 0) (fst (trigger_frame (15 / 100) 48)) 48
       (snd (run (default_props 0) [trigger_frame 0 16, trigger_frame (5 / 100) 32]
              (effect_start 0 initial_refs))))) = [True]
   \<and> analog_events ''LeftTrigger''
     (fst (poll_frame (default_props 0) (fst (trigger_frame (15 / 100) 48)) 48
       (snd (run (default_props 0) [trigger_frame 0 16, trigger_frame (5 / 100) 32]
              (effect_start 0 initial_refs))))) = [15 / 100]"
  by (simp add: split_beta trigger_frame_analog trigger_frame_binary trigger_frame_prev)

text \<open>
  C3. In every processed frame and for every button channel, an analog event carrying the
  raw value is delivered exactly when the channel index is 6 or 7 and the raw value
  differs from the remembered one by more than \<open>triggerEpsilon\<close>; no other channel ever
  gets an analog event; an analog event and a binary edge can come in the same frame for
  the same channel. On the sequence 0.0, 0.05, 0.15, 0.3, 0.0 with epsilon 0.01 the step
  to 0.05 does deliver an analog event, as do the three steps after it.
\<close>

theorem analog_events_iff:
  assumes "lookup_gamepad gps (device_id p) = Some gp"
    and "k < length (gp_buttons gp)"
    and "onButtonAnalog p"
  shows "analog_events (button_name k) (fst (poll_frame p gps now s)) =
           (if (k = 6 \<or> k = 7)
               \<and> \<bar>gp_buttons gp ! k - prevValue_of (prevButtons s) (button_name k)\<bar>
                   > triggerEpsilon p
            then [gp_buttons gp ! k] else [])
         \<and> (n \<noteq> button_name 6 \<and> n \<noteq> button_name 7
              \<longrightarrow> analog_events n (fst (poll_frame p' gps' now' s')) = [])
         \<and> binary_events ''LeftTrigger''
              (fst (poll_frame (default_props 0) (fst (trigger_frame (15 / 100) 48)) 48
                (snd (run (default_props 0) [trigger_frame 0 16, trigger_frame (5 / 100) 32]
                       (effect_start 0 initial_refs))))) = [True]
         \<and> analog_events ''LeftTrigger''
              (fst (poll_frame (default_props 0) (fst (trigger_frame (15 / 100) 48)) 48
                (snd (run (default_props 0) [trigger_frame 0 16, trigger_frame (5 / 100) 32]
                       (effect_start 0 initial_refs))))) = [15 / 100]
         \<and> analog_events ''LeftTrigger''
              (fst (run (default_props 0) trigger_scenario (effect_start 0 initial_refs)))
            = [5 / 100, 15 / 100, 3 / 10, 0]"
proof -
  have "analog_events (button_name k) (fst (poll_frame p gps now s)) =
           (if (k = 6 \<or> k = 7)
               \<and> \<bar>gp_buttons gp ! k - prevValue_of (prevButtons s) (button_name k)\<bar>
                   > triggerEpsilon p
            then [gp_buttons gp ! k] else [])"
    using assms(2,3)
    by (simp add: poll_frame_analog [OF assms(1)] button_step_analog)
  with poll_frame_analog_non_trigger scenario_third_frame trigger_scenario_analog
  show ?thesis by blast
qed

theorem analog_events_iff_witness:
  "lookup_gamepad (fst (trigger_frame (5 / 100) 32)) (device_id (default_props 0))
     = Some (pad [] [0, 0, 0, 0, 0, 0, 5 / 100])
   \<and> 6 < length (gp_buttons (pad [] [0, 0, 0, 0, 0, 0, 5 / 100]))
   \<and> onButtonAnalog (default_props 0)
   \<and> analog_events (button_name 6)
        (fst (poll_frame (default_props 0) (fst (trigger_frame (5 / 100) 32)) 32
               (effect_start 0 initial_refs))) = [5 / 100]"
proof -
  have k: "6 < length (gp_buttons (pad [] [0, 0, 0, 0, 0, 0, 5 / 100]))"
    by (simp add: pad_def)
  have c: "onButtonAnalog (default_props 0)"
    by (simp add: default_props_def)
  from analog_events_iff [OF trigger_frame_lookup k c, where now = 32
      and s = "effect_start 0 initial_refs"]
  have "analog_events (button_name 6)
        (fst (poll_frame (default_props 0) (fst (trigger_frame (5 / 100) 32)) 32
               (effect_start 0 initial_refs))) = [5 / 100]"
    by (simp add: fresh_prev pad_def default_props_def)
  with trigger_frame_lookup k c show ?thesis by blast
qed

section \<open>The first frame of a new instance\<close>

text \<open>
  C10, as the claim states it, fails for a negative threshold: the default previous value
  0 then already counts as pressed, and a button held at 0.5 on the first frame of a new
  instance gives no binary event.
\<close>

theorem first_frame_press_counterexample:
  "gp_buttons (pad [] [1 / 2]) ! 0 > triggerThreshold ((default_props 0)\<lparr>triggerThreshold := - 1\<rparr>)
   \<and> binary_events (button_name 0)
        (fst (poll_frame ((default_props 0)\<lparr>triggerThreshold := - 1\<rparr>) [Some (pad [] [1 / 2])] 16
               (effect_start 0 initial_refs))) = []"
proof -
  let ?p = "(default_props 0)\<lparr>triggerThreshold := - 1\<rparr>"
  have l: "lookup_gamepad [Some (pad [] [1 / 2])] (device_id ?p) = Some (pad [] [1 / 2])"
    by (simp add: lookup_gamepad_def default_props_def)
  show ?thesis
    by (simp add: poll_frame_binary [OF l] button_step_binary fresh_prev)
       (simp add: pad_def default_props_def)
qed

text \<open>
  C10, amended. On the first processed frame of a new instance every channel's remembered
  value reads as 0. Provided \<open>triggerThreshold\<close> is not negative, a channel whose raw value
  exceeds the threshold on that frame gets the binary event \<open>True\<close> at once; and a
  channel of index 6 or 7 whose raw value exceeds \<open>triggerEpsilon\<close> gets an analog event
  with that value at once.
\<close>

theorem first_frame_press:
  assumes "lookup_gamepad gps (device_id p) = Some gp"
    and "k < length (gp_buttons gp)"
    and "0 \<le> triggerThreshold p"
  shows "prevValue_of (prevButtons (effect_start t0 initial_refs)) n = 0
         \<and> (onButtonBinary p \<and> gp_buttons gp ! k > triggerThreshold p
              \<longrightarrow> binary_events (button_name k)
                    (fst (poll_frame p gps now (effect_start t0 initial_refs))) = [True])
         \<and> (onButtonAnalog p \<and> (k = 6 \<or> k = 7) \<and> gp_buttons gp ! k > triggerEpsilon p
              \<longrightarrow> analog_events (button_name k)
                    (fst (poll_frame p gps now (effect_start t0 initial_refs)))
                  = [gp_buttons gp ! k])"
  using assms(2,3)
  by (auto simp: poll_frame_binary [OF assms(1)] poll_frame_analog [OF assms(1)]
      button_step_binary button_step_analog fresh_prev)

theorem first_frame_press_witness:
  "lookup_gamepad (fst (trigger_frame (1 / 2) 16)) (device_id (default_props 0))
     = Some (pad [] [0, 0, 0, 0, 0, 0, 1 / 2])
   \<and> 6 < length (gp_buttons (pad [] [0, 0, 0, 0, 0, 0, 1 / 2]))
   \<and> 0 \<le> triggerThreshold (default_props 0)
   \<and> binary_events (button_name 6)
        (fst (poll_frame (default_props 0) (fst (trigger_frame (1 / 2) 16)) 16
               (effect_start 0 initial_refs))) = [True]
   \<and> analog_events (button_name 6)
        (fst (poll_frame (default_props 0) (fst (trigger_frame (1 / 2) 16)) 16
               (effect_start 0 initial_refs))) = [1 / 2]"
proof -
  have k: "6 < length (gp_buttons (pad [] [0, 0, 0, 0, 0, 0, 1 / 2]))"
    by (simp add: pad_def)
  have t: "0 \<le> triggerThreshold (default_props 0)"
    by (simp add: default_props_def)
  have v: "gp_buttons (pad [] [0, 0, 0, 0, 0, 0, 1 / 2]) ! 6 = 1 / 2"
    by (simp add: pad_def)
  have c: "onButtonBinary (default_props 0)" "onButtonAnalog (default_props 0)"
    "triggerThreshold (default_props 0) < 1 / 2" "triggerEpsilon (default_props 0) < 1 / 2"
    by (simp_all add: default_props_def)
  from first_frame_press [OF trigger_frame_lookup k t, where ?t0.0 = 0 and now = 16] v c
  have "binary_events (button_name 6)
        (fst (poll_frame (default_props 0) (fst (trigger_frame (1 / 2) 16)) 16
               (effect_start 0 initial_refs))) = [True]
     \<and> analog_events (button_name 6)
        (fst (poll_frame (default_props 0) (fst (trigger_frame (1 / 2) 16)) 16
               (effect_start 0 initial_refs))) = [1 / 2]"
    by simp
  with trigger_frame_lookup k t show ?thesis by blast
qed

section \<open>The axis scenario\<close>

text \<open>
  C9, as the claim states it, fails under the default props: the left-move callback sees
  \<open>dx\<close> = 0.5 and then 0 once, for the clamped 0.05 reading; the last reading, neutral
  after neutral, calls nothing, so the sequence is not 0.5, 0, 0.
\<close>

theorem axis_scenario_counterexample:
  "map fst (move_events Left
     (fst (run (default_props 0) axis_scenario (effect_start 0 initial_refs)))) \<noteq> [1 / 2, 0, 0]"
proof -
  have "move_events Left (fst (run (default_props 0)
      [(fst (axis_frame 0 16), 16), (fst (axis_frame (1 / 2) 32), 32),
       (fst (axis_frame (5 / 100) 48), 48), (fst (axis_frame 0 64), 64)]
       (effect_start 0 initial_refs))) = [(1 / 2, 0), (0, 0)]"
    by (rule left_x_run [OF _ _ _ axis_frame_lookup axis_frame_lookup axis_frame_lookup
          axis_frame_lookup])
       (simp_all add: default_props_def axis_frame_raw)
  then show ?thesis
    by (simp add: axis_scenario_def axis_frame_def)
qed

text \<open>
  C9, amended. Under \<open>JoystickEmitOnChange\<close> with deadzone 0.1, when the raw left X axis
  of a new instance reads 0.0, 0.5, 0.05, 0.0 over four successive processed frames with
  Y at rest, the \<open>dx\<close> values the left-move callback sees are exactly 0.5, 0: the 0.05
  reading is clamped and reported as the release, and the last reading calls nothing.
  This holds whatever the clock, the rate, the right stick and the buttons are.
\<close>

theorem axis_scenario_on_change:
  assumes "joystickEmitMode p = JoystickEmitOnChange"
    and "onLeftJoystickMove p"
    and "deadzone p = 1 / 10"
    and "lookup_gamepad gps1 (device_id p) = Some (g1\<lparr>gp_axes := 0 # 0 # r1\<rparr>)"
    and "lookup_gamepad gps2 (device_id p) = Some (g2\<lparr>gp_axes := (1 / 2) # 0 # r2\<rparr>)"
    and "lookup_gamepad gps3 (device_id p) = Some (g3\<lparr>gp_axes := (5 / 100) # 0 # r3\<rparr>)"
    and "lookup_gamepad gps4 (device_id p) = Some (g4\<lparr>gp_axes := 0 # 0 # r4\<rparr>)"
  shows "map fst (move_events Left
           (fst (run p [(gps1, t1), (gps2, t2), (gps3, t3), (gps4, t4)]
                  (effect_start t0 initial_refs)))) = [1 / 2, 0]"
proof -
  have "move_events Left
           (fst (run p [(gps1, t1), (gps2, t2), (gps3, t3), (gps4, t4)]
                  (effect_start t0 initial_refs))) = [(1 / 2, 0), (0, 0)]"
    by (rule left_x_run [OF assms])
       (simp_all add: axesRaw_def axis_def filter_x_def filter_y_def)
  then show ?thesis by simp
qed

theorem axis_scenario_on_change_witness:
  "joystickEmitMode (default_props 0) = JoystickEmitOnChange
   \<and> onLeftJoystickMove (default_props 0)
   \<and> deadzone (default_props 0) = 1 / 10
   \<and> lookup_gamepad (fst (axis_frame (5 / 100) 48)) (device_id (default_props 0))
       = Some ((pad [] [])\<lparr>gp_axes := (5 / 100) # 0 # [0, 0]\<rparr>)
   \<and> map fst (move_events Left
        (fst (run (default_props 0) axis_scenario (effect_start 0 initial_refs)))) = [1 / 2, 0]"
proof -
  have m: "joystickEmitMode (default_props 0) = JoystickEmitOnChange"
    and c: "onLeftJoystickMove (default_props 0)"
    and d: "deadzone (default_props 0) = 1 / 10"
    by (simp_all add: default_props_def)
  have l: "lookup_gamepad (fst (axis_frame x t)) (device_id (default_props 0))
       = Some ((pad [] [])\<lparr>gp_axes := x # 0 # [0, 0]\<rparr>)" for x t
    by (simp add: axis_frame_lookup pad_def)
  from axis_scenario_on_change [OF m c d l l l l, where ?t1.0 = 16 and ?t2.0 = 32
      and ?t3.0 = 48 and ?t4.0 = 64 and ?t0.0 = 0]
  have "map fst (move_events Left
        (fst (run (default_props 0) axis_scenario (effect_start 0 initial_refs)))) = [1 / 2, 0]"
    by (simp add: axis_scenario_def axis_frame_def)
  with m c d l show ?thesis by blast
qed

section \<open>Reconfiguration\<close>

text \<open>
  C5, as the claim states it, fails: after a reconfiguration the remembered left pair is
  still \<open>(0.5, 0)\<close> and the remembered value of the first button is still 1, so the first
  frame afterwards gives no press event for the held button, where the first frame of a
  new instance gives one. This is so for the new loop's \<open>poll\<close> taken alone and for the
  whole animation frame.
\<close>

theorem reconfigure_counterexample:
  "prevAxes (hook_refs reconfigured) Left = (1 / 2, 0)
   \<and> prevButtons (hook_refs reconfigured) ''Face1'' = Some 1
   \<and> binary_events ''Face1'' (fst (poll_frame faster held 36 (hook_refs reconfigured))) = []
   \<and> binary_events ''Face1'' (fst (poll_frame faster held 36 (hook_refs (mount faster 20))))
       = [True]
   \<and> binary_events ''Face1'' (fst (animation_frame held 36 reconfigured)) = []
   \<and> binary_events ''Face1'' (fst (animation_frame held 36 (mount faster 20))) = [True]"
proof -
  let ?s1 = "snd (poll_frame (default_props 0) held 16 (effect_start 0 initial_refs))"
  let ?s2 = "snd (poll_frame (default_props 0) held 36 (hook_refs reconfigured))"
  have a: "prevAxes (hook_refs reconfigured) Left = (1 / 2, 0)"
    unfolding reconfigured_refs by (simp add: effect_start_fields held_frame_kept)
  have b: "prevButtons (hook_refs reconfigured) ''Face1'' = Some 1"
    unfolding reconfigured_refs by (simp add: effect_start_fields held_frame_kept)
  then have pv: "prevValue_of (prevButtons (hook_refs reconfigured)) (button_name 0) = 1"
    by (simp add: prevValue_of_def Face1)
  have c: "binary_events (button_name 0)
      (fst (poll_frame faster held 36 (hook_refs reconfigured))) = []"
    unfolding poll_frame_binary [OF held_lookup(2)] button_step_binary pv
    by (simp add: pad_def faster_def default_props_def)
  have d: "binary_events (button_name 0)
      (fst (poll_frame faster held 36 (hook_refs (mount faster 20)))) = [True]"
    unfolding poll_frame_binary [OF held_lookup(2)] button_step_binary mount_refs fresh_prev
    by (simp add: pad_def faster_def default_props_def)
  have old: "binary_events (button_name 0)
      (fst (poll_frame (default_props 0) held 36 (hook_refs reconfigured))) = []"
    unfolding poll_frame_binary [OF held_lookup(1)] button_step_binary pv
    by (simp add: pad_def default_props_def)
  have "prevValue_of (prevButtons ?s2) (button_name 0) = gp_buttons (pad [1 / 2, 0, 0, 0] [1]) ! 0"
    by (rule poll_frame_prevValue [OF held_lookup(1)]) (simp add: pad_def)
  then have pv2: "prevValue_of (prevButtons ?s2) (button_name 0) = 1"
    by (simp add: pad_def)
  have new: "binary_events (button_name 0) (fst (poll_frame faster held 36 ?s2)) = []"
    unfolding poll_frame_binary [OF held_lookup(2)] button_step_binary pv2
    by (simp add: pad_def faster_def default_props_def)
  have e: "binary_events (button_name 0) (fst (animation_frame held 36 reconfigured)) = []"
    unfolding animation_frame_pair [OF reconfigured_queue] binary_events_append old new
    by simp
  have f: "binary_events (button_name 0) (fst (animation_frame held 36 (mount faster 20))) = [True]"
    unfolding animation_frame_single(1) [OF mount_queue] by (rule d)
  from a b c d e f show ?thesis by (simp add: Face1)
qed

text \<open>
  C5, amended. A reconfiguration (an effect run after a change of any prop) resets the
  last-emit timestamp to the current time and nothing else: the remembered axis pairs, the
  non-neutral flags and the remembered button values stay as they were. So the button
  events of the first animation frame afterwards, whichever loops run in it, are those
  the same frame gives when the refs are as they were before the reconfiguration.
\<close>

theorem reconfigure_keeps_refs:
  "lastEmitTime (hook_refs (reconfigure p now h)) = now
   \<and> prevAxes (hook_refs (reconfigure p now h)) = prevAxes (hook_refs h)
   \<and> lastNonNeutral (hook_refs (reconfigure p now h)) = lastNonNeutral (hook_refs h)
   \<and> prevButtons (hook_refs (reconfigure p now h)) = prevButtons (hook_refs h)
   \<and> binary_events n (fst (animation_frame gps t (reconfigure p now h)))
       = binary_events n
           (fst (animation_frame gps t ((reconfigure p now h)\<lparr>hook_refs := hook_refs h\<rparr>)))
   \<and> analog_events n (fst (animation_frame gps t (reconfigure p now h)))
       = analog_events n
           (fst (animation_frame gps t ((reconfigure p now h)\<lparr>hook_refs := hook_refs h\<rparr>)))"
proof -
  let ?r = "reconfigure p now h"
  have "prevButtons (hook_refs (?r\<lparr>raf_queue := []\<rparr>))
      = prevButtons (hook_refs (?r\<lparr>hook_refs := hook_refs h, raf_queue := []\<rparr>))"
    by (simp add: reconfigure_refs effect_start_def)
  from run_callbacks_buttons_only [OF this, of n "raf_queue ?r" gps t]
  have "binary_events n (fst (animation_frame gps t ?r))
       = binary_events n (fst (animation_frame gps t (?r\<lparr>hook_refs := hook_refs h\<rparr>)))
     \<and> analog_events n (fst (animation_frame gps t ?r))
       = analog_events n (fst (animation_frame gps t (?r\<lparr>hook_refs := hook_refs h\<rparr>)))"
    by (simp add: animation_frame_def)
  then show ?thesis
    by (simp add: reconfigure_refs effect_start_def)
qed

theorem reconfigure_keeps_refs_witness:
  "lastEmitTime (hook_refs (reconfigure ((default_props 0)\<lparr>triggerThreshold := 7 / 10\<rparr>) 20
       (snd (animation_frame held 16 (mount (default_props 0) 0))))) = 20
   \<and> prevAxes (hook_refs (reconfigure ((default_props 0)\<lparr>triggerThreshold := 7 / 10\<rparr>) 20
       (snd (animation_frame held 16 (mount (default_props 0) 0))))) Left = (1 / 2, 0)
   \<and> lastNonNeutral (hook_refs (reconfigure ((default_props 0)\<lparr>triggerThreshold := 7 / 10\<rparr>) 20
       (snd (animation_frame held 16 (mount (default_props 0) 0))))) Left
   \<and> prevButtons (hook_refs (reconfigure ((default_props 0)\<lparr>triggerThreshold := 7 / 10\<rparr>) 20
       (snd (animation_frame held 16 (mount (default_props 0) 0))))) ''Face1'' = Some 1"
  using reconfigure_keeps_refs [where p = "(default_props 0)\<lparr>triggerThreshold := 7 / 10\<rparr>"
      and now = 20 and h = "snd (animation_frame held 16 (mount (default_props 0) 0))"]
  by (simp add: held_frame_refs held_frame_kept)

section \<open>Teardown\<close>

text \<open>
  C6. The claim asks that after a teardown no further frame is requested and no callback
  fires. The effect hands React no cleanup, so after an unmount the frame it requested is
  still pending; an animation frame leaves every pending \<open>poll\<close> pending again, in any
  state; and the loop still delivers events: here the press of a held first button, after
  the unmount.
\<close>

theorem teardown_keeps_polling:
  "raf_queue (unmount (mount p t0)) = [p]
   \<and> raf_queue (snd (animation_frame gps now h)) = raf_queue h
   \<and> binary_events ''Face1''
        (fst (animation_frame held 16 (unmount (mount (default_props 0) 0)))) = [True]"
proof -
  have u: "unmount (mount p t0) = mount p t0" for p t0
    by (simp add: unmount_def run_cleanup_id)
  have "binary_events (button_name 0)
        (fst (animation_frame held 16 (unmount (mount (default_props 0) 0)))) = [True]"
    unfolding u animation_frame_single(1) [OF mount_queue] poll_frame_binary [OF held_lookup(1)]
      button_step_binary mount_refs fresh_prev
    by (simp add: pad_def default_props_def)
  then show ?thesis
    by (simp add: u animation_frame_queue mount_queue Face1)
qed

section \<open>Registry refresh\<close>

text \<open>
  C7. The claim asks that a refresh carries the busy flag of every known slot forward. The
  refresh that the listeners and the interval run looks the flag up in the list of the
  first render, which is empty: a device at slot 0 that was marked busy is published as
  not busy by the next refresh.
\<close>

theorem refresh_forgets_busy:
  "map busy (gamepads (manager_markBusy 0 True (manager_mount [Some (pad [] [])]))) = [Some True]
   \<and> map busy (gamepads (refresh [Some (pad [] [])]
         (manager_markBusy 0 True (manager_mount [Some (pad [] [])])))) = [Some False]"
  by (simp add: manager_mount_def manager_markBusy_def refresh_def markBusy_def gamepad_info_def
      carried_busy_def pad_def)

section \<open>Next available device\<close>

lemma nextAvailable_first:
  "nextAvailable gs = (case filter available gs of [] \<Rightarrow> None | g # _ \<Rightarrow> index g)"
  by (induction gs) (simp_all add: nextAvailable_def)

lemma two_pads_published: "published (updateGamepads [] two_pads)"
proof -
  have "api_snapshot two_pads"
    by (simp add: api_snapshot_def two_pads_def pad_def less_Suc_eq)
  then show ?thesis by (rule published.refreshed)
qed

lemma two_pads_marked:
  "nextAvailable (updateGamepads [] two_pads) = Some 0"
  "nextAvailable (markBusy 0 True (updateGamepads [] two_pads)) = Some 1"
  "map busy (markBusy 0 True (updateGamepads [] two_pads)) = [Some True, Some False]"
  by (simp_all add: nextAvailable_def markBusy_def two_pads_def gamepad_info_def carried_busy_def
      pad_def available_def)

text \<open>
  C8, as the claim states it, fails in its last part: with two free devices, the caller
  that runs \<open>markBusy 0 True\<close> and, in the same render, \<open>nextAvailable\<close> still gets
  slot 0, although the state now has slot 0 busy. The closure reads the list of its own
  render, and the update reaches the caller with the next render.
\<close>

theorem nextAvailable_immediate_counterexample:
  "fst (markBusy_then_nextAvailable 0 (manager_mount two_pads)) = Some 0
   \<and> map busy (gamepads (snd (markBusy_then_nextAvailable 0 (manager_mount two_pads))))
       = [Some True, Some False]"
  by (simp add: markBusy_then_nextAvailable_def Let_def hook_nextAvailable_def hook_markBusy_def
      render_def manager_markBusy_def manager_mount_def two_pads_marked)

text \<open>
  C8, amended. For every list the registry publishes, \<open>nextAvailable\<close> returns none
  exactly when no descriptor is connected and not busy; when it returns a slot, the
  descriptor of that slot is connected and not busy, and no connected and not busy
  descriptor has a lower slot. For any list at all it returns the slot of the first
  connected and not busy descriptor in the order of the list. It reads the list of its
  render and changes nothing. After \<open>markBusy slot True\<close> the \<open>nextAvailable\<close> of the next
  render does not return that slot; a call in the same render as the \<open>markBusy\<close> returns
  what it would have returned before it.
\<close>

theorem nextAvailable_lowest_free:
  assumes "published gs"
  shows "(nextAvailable gs = None) = (\<forall>g \<in> set gs. \<not> (connected g \<and> busy g \<noteq> Some True))
         \<and> (nextAvailable gs = Some i \<longrightarrow>
              (\<exists>g \<in> set gs. index g = Some i)
              \<and> (\<forall>g \<in> set gs. index g = Some i \<longrightarrow> connected g \<and> busy g \<noteq> Some True)
              \<and> (\<forall>g \<in> set gs. connected g \<and> busy g \<noteq> Some True
                    \<longrightarrow> (\<exists>j. index g = Some j \<and> i \<le> j)))
         \<and> nextAvailable gs' = (case filter available gs' of [] \<Rightarrow> None | g # _ \<Rightarrow> index g)
         \<and> hook_nextAvailable (render m) = nextAvailable (gamepads m)
         \<and> hook_nextAvailable (render (hook_markBusy (render m) k True m)) \<noteq> Some k
         \<and> markBusy_then_nextAvailable k m
             = (hook_nextAvailable (render m), manager_markBusy k True m)"
proof -
  note o = published_ordered [OF assms]
  have 1: "(nextAvailable gs = None) = (\<forall>g \<in> set gs. \<not> (connected g \<and> busy g \<noteq> Some True))"
    using nextAvailable_ordered(1) [OF o] by (simp add: available_def)
  have 2: "nextAvailable gs = Some i \<longrightarrow>
              (\<exists>g \<in> set gs. index g = Some i)
              \<and> (\<forall>g \<in> set gs. index g = Some i \<longrightarrow> connected g \<and> busy g \<noteq> Some True)
              \<and> (\<forall>g \<in> set gs. connected g \<and> busy g \<noteq> Some True
                    \<longrightarrow> (\<exists>j. index g = Some j \<and> i \<le> j))"
  proof
    assume "nextAvailable gs = Some i"
    from nextAvailable_ordered(2) [OF o this] show
      "(\<exists>g \<in> set gs. index g = Some i)
       \<and> (\<forall>g \<in> set gs. index g = Some i \<longrightarrow> connected g \<and> busy g \<noteq> Some True)
       \<and> (\<forall>g \<in> set gs. connected g \<and> busy g \<noteq> Some True
             \<longrightarrow> (\<exists>j. index g = Some j \<and> i \<le> j))"
      unfolding available_def by blast
  qed
  have 3: "hook_nextAvailable (render m) = nextAvailable (gamepads m)"
    by (simp add: hook_nextAvailable_def render_def)
  have 4: "hook_nextAvailable (render (hook_markBusy (render m) k True m)) \<noteq> Some k"
    using nextAvailable_markBusy [of k "gamepads m"]
    by (simp add: hook_nextAvailable_def render_def hook_markBusy_def manager_markBusy_def)
  have 5: "markBusy_then_nextAvailable k m
             = (hook_nextAvailable (render m), manager_markBusy k True m)"
    by (simp add: markBusy_then_nextAvailable_def Let_def hook_markBusy_def)
  from 1 2 3 4 5 nextAvailable_first [of gs'] show ?thesis
    by blast
qed

theorem nextAvailable_lowest_free_witness:
  "published (markBusy 0 True (updateGamepads [] two_pads))
   \<and> nextAvailable (markBusy 0 True (updateGamepads [] two_pads)) = Some 1
   \<and> published (markBusy 1 True (markBusy 0 True (updateGamepads [] two_pads)))
   \<and> nextAvailable (markBusy 1 True (markBusy 0 True (updateGamepads [] two_pads))) = None
   \<and> hook_nextAvailable
        (render (hook_markBusy (render (manager_mount two_pads)) 0 True (manager_mount two_pads)))
       = Some 1"
proof -
  note p0 = two_pads_published
  then have p1: "published (markBusy 0 True (updateGamepads [] two_pads))"
    by (rule published.marked)
  then have p2: "published (markBusy 1 True (markBusy 0 True (updateGamepads [] two_pads)))"
    by (rule published.marked)
  note e1 = two_pads_marked(2)
  have "\<forall>g \<in> set (markBusy 1 True (markBusy 0 True (updateGamepads [] two_pads))).
          \<not> (connected g \<and> busy g \<noteq> Some True)"
    by (simp add: markBusy_def two_pads_def gamepad_info_def carried_busy_def pad_def)
  with nextAvailable_lowest_free [OF p2]
  have e2: "nextAvailable (markBusy 1 True (markBusy 0 True (updateGamepads [] two_pads))) = None"
    by blast
  have e3: "hook_nextAvailable
        (render (hook_markBusy (render (manager_mount two_pads)) 0 True (manager_mount two_pads)))
       = Some 1"
    by (simp add: hook_nextAvailable_def render_def hook_markBusy_def manager_markBusy_def
        manager_mount_def two_pads_marked)
  from p1 p2 e1 e2 e3 show ?thesis by blast
qed

end
